theory Spec2Isabelle
  imports Main "HOL-Library.Word" "HOL-Library.Monad_Syntax"
begin

section \<open>Serialization of a doubly-linked list with random pointers\<close>

text \<open>
  A shallow embedding of \<^verbatim>\<open>DoublyLinkedListSerializer.cpp\<close>. Nodes live in an explicit
  store, pointers are addresses into it (\<open>None\<close> is \<^verbatim>\<open>nullptr\<close>), the \<^verbatim>\<open>FILE*\<close>
  streams are byte lists, and every \<^verbatim>\<open>throw\<close> is a value of the type \<open>error\<close>.
  An operation has the result \<open>None\<close> where the C++ program has no defined result: a
  load or store through a null or freed pointer, or a loop that never ends.
\<close>

subsection \<open>Machine integers and bytes\<close>

text \<open>
  \<^verbatim>\<open>uint32_t\<close>, \<^verbatim>\<open>int32_t\<close> and \<^verbatim>\<open>int\<close> are 32-bit words; a signed one is read with
  \<open>sint\<close>. The casts between them keep the bits, and a cast from \<^verbatim>\<open>size_t\<close> keeps the
  low 32 bits (\<open>word_of_nat\<close>). \<^verbatim>\<open>count++\<close> is the addition of 1 that wraps around, as the
  usual targets compute it (C++ leaves the overflow of an \<^verbatim>\<open>int\<close> undefined).
\<close>

type_synonym byte = "8 word"
type_synonym uint32 = "32 word"
type_synonym int32 = "32 word"

text \<open>
  \<^verbatim>\<open>fwrite(&v, sizeof(v), 1, file)\<close> writes the four bytes of the object, \<^verbatim>\<open>fread\<close> reads
  them back; the byte order is the host's, taken to be little-endian here. \<open>rd32\<close> is
  only applied to the four bytes a read returned.
\<close>

definition le32 :: "32 word \<Rightarrow> byte list" where
  "le32 w = [ucast w, ucast (drop_bit 8 w), ucast (drop_bit 16 w), ucast (drop_bit 24 w)]"

definition rd32 :: "byte list \<Rightarrow> 32 word" where
  "rd32 bs = or (ucast (bs ! 0)) (or (push_bit 8 (ucast (bs ! 1)))
               (or (push_bit 16 (ucast (bs ! 2))) (push_bit 24 (ucast (bs ! 3)))))"

subsection \<open>The store of nodes\<close>

type_synonym addr = nat

record ListNode =
  prev :: "addr option"
  nxt :: "addr option"
  rand :: "addr option"
  data :: "byte list"

text \<open>The default member initialisers of \<^verbatim>\<open>struct ListNode\<close>.\<close>

definition new_ListNode :: ListNode where
  "new_ListNode = \<lparr>prev = None, nxt = None, rand = None, data = []\<rparr>"

text \<open>
  The store is a list of cells; an address is an index, a freed cell is \<open>None\<close>.
  \<^verbatim>\<open>new\<close> takes the cell after the last one, so a new address is never one in use.
  Memory is unbounded: \<^verbatim>\<open>std::bad_alloc\<close> is not modelled.
\<close>

type_synonym heap = "ListNode option list"

definition hget :: "heap \<Rightarrow> addr \<Rightarrow> ListNode option" where
  "hget h a = (if a < length h then h ! a else None)"

definition hnew :: "heap \<Rightarrow> ListNode \<Rightarrow> addr \<times> heap" where
  "hnew h n = (length h, h @ [Some n])"

definition hdelete :: "heap \<Rightarrow> addr \<Rightarrow> heap" where
  "hdelete h a = h[a := None]"

text \<open>A store \<^verbatim>\<open>p->field = v\<close>: undefined through a pointer to no node.\<close>

definition store :: "heap \<Rightarrow> addr \<Rightarrow> (ListNode \<Rightarrow> ListNode) \<Rightarrow> heap option" where
  "store h a f = (case hget h a of None \<Rightarrow> None | Some n \<Rightarrow> Some (h[a := Some (f n)]))"

text \<open>A counted loop whose body may have no defined result.\<close>

primrec for_each :: "'a list \<Rightarrow> ('a \<Rightarrow> 's \<Rightarrow> 's option) \<Rightarrow> 's \<Rightarrow> 's option" where
  "for_each [] body s = Some s"
| "for_each (x # xs) body s = (case body x s of None \<Rightarrow> None | Some s' \<Rightarrow> for_each xs body s')"

subsection \<open>The list object\<close>

record List =
  head :: "addr option"
  tail :: "addr option"
  count :: int32

type_synonym state = "heap \<times> List"

definition empty_List :: List where
  "empty_List = \<lparr>head = None, tail = None, count = 0\<rparr>"

datatype error =
    NotOpenForWriting | ErrWriteCount | ErrWriteDataSize | ErrWriteData | ErrWriteRandIndex
  | NotOpenForReading | ErrReadUint32 | ErrReadNodeData | ErrReadRandIndex

subsection \<open>\<^verbatim>\<open>List::AddNode\<close>\<close>

definition AddNode :: "byte list \<Rightarrow> state \<Rightarrow> state option" where
  "AddNode d s = (case s of (h, l) \<Rightarrow>
     (case hnew h (new_ListNode\<lparr>data := d\<rparr>) of (newNode, h1) \<Rightarrow>
        (case head l of
           None \<Rightarrow> Some (h1, l\<lparr>head := Some newNode, tail := Some newNode, count := count l + 1\<rparr>)
         | Some _ \<Rightarrow>
            (case tail l of
               None \<Rightarrow> None
             | Some t \<Rightarrow> do {
                 h2 \<leftarrow> store h1 t (\<lambda>n. n\<lparr>nxt := Some newNode\<rparr>);
                 h3 \<leftarrow> store h2 newNode (\<lambda>n. n\<lparr>prev := Some t\<rparr>);
                 Some (h3, l\<lparr>tail := Some newNode, count := count l + 1\<rparr>)
               }))))"

subsection \<open>\<^verbatim>\<open>List::SetRand\<close>\<close>

text \<open>The loop \<^verbatim>\<open>for (i = 0; i < k; i++) node = node->next;\<close>\<close>

primrec advance :: "nat \<Rightarrow> heap \<Rightarrow> addr option \<Rightarrow> addr option option" where
  "advance 0 h node = Some node"
| "advance (Suc k) h node =
     (case node of
        None \<Rightarrow> None
      | Some a \<Rightarrow> (case hget h a of None \<Rightarrow> None | Some n \<Rightarrow> advance k h (nxt n)))"

definition SetRand :: "int32 \<Rightarrow> int32 \<Rightarrow> state \<Rightarrow> state option" where
  "SetRand nodeIndex randIndex s = (case s of (h, l) \<Rightarrow>
     if sint nodeIndex < 0 \<or> sint nodeIndex \<ge> sint (count l) \<or>
        sint randIndex < 0 \<or> sint randIndex \<ge> sint (count l)
     then Some s
     else do {
       node \<leftarrow> advance (nat (sint nodeIndex)) h (head l);
       randNode \<leftarrow> advance (nat (sint randIndex)) h (head l);
       (case node of
          None \<Rightarrow> None
        | Some a \<Rightarrow> do { h' \<leftarrow> store h a (\<lambda>n. n\<lparr>rand := randNode\<rparr>); Some (h', l) })
     })"

subsection \<open>\<^verbatim>\<open>List::Clear\<close>\<close>

partial_function (option) Clear_loop :: "heap \<Rightarrow> addr option \<Rightarrow> heap option" where
  "Clear_loop h node =
     (case node of
        None \<Rightarrow> Some h
      | Some a \<Rightarrow> (case hget h a of None \<Rightarrow> None | Some n \<Rightarrow> Clear_loop (hdelete h a) (nxt n)))"

definition Clear :: "state \<Rightarrow> state option" where
  "Clear s = (case s of (h, l) \<Rightarrow>
     do { h' \<leftarrow> Clear_loop h (head l); Some (h', l\<lparr>head := None, tail := None, count := 0\<rparr>) })"

subsection \<open>\<^verbatim>\<open>List::Serialize\<close>\<close>

text \<open>
  The sink accepts \<open>room\<close> more bytes; \<^verbatim>\<open>fwrite\<close> of more than that is a short write,
  which the caller turns into an exception (the partial output is then of no interest).
\<close>

record wfile =
  written :: "byte list"
  room :: nat

definition fwrite :: "byte list \<Rightarrow> wfile \<Rightarrow> wfile option" where
  "fwrite bs f = (if length bs \<le> room f
     then Some (f\<lparr>written := written f @ bs, room := room f - length bs\<rparr>) else None)"

text \<open>The loop \<^verbatim>\<open>while (node) { nodes.push_back(node); node = node->next; }\<close>\<close>

partial_function (option) collect :: "heap \<Rightarrow> addr option \<Rightarrow> addr list \<Rightarrow> addr list option" where
  "collect h node nodes =
     (case node of
        None \<Rightarrow> Some nodes
      | Some a \<Rightarrow> (case hget h a of None \<Rightarrow> None | Some n \<Rightarrow> collect h (nxt n) (nodes @ [a])))"

text \<open>The map \<^verbatim>\<open>nodeToIndex\<close>; its \<^verbatim>\<open>operator[]\<close> gives 0 for a key it does not hold.\<close>

definition nodeToIndex :: "addr list \<Rightarrow> (addr \<rightharpoonup> int32)" where
  "nodeToIndex nodes = fold (\<lambda>i m. m(nodes ! i \<mapsto> word_of_nat i)) [0..<length nodes] Map.empty"

definition index_at :: "(addr \<rightharpoonup> int32) \<Rightarrow> addr \<Rightarrow> int32" where
  "index_at m a = (case m a of None \<Rightarrow> 0 | Some i \<Rightarrow> i)"

definition writeNode :: "(addr \<rightharpoonup> int32) \<Rightarrow> ListNode \<Rightarrow> wfile \<Rightarrow> error + wfile" where
  "writeNode m node f =
     (let dataSize = (word_of_nat (length (data node)) :: uint32) in
      case fwrite (le32 dataSize) f of
        None \<Rightarrow> Inl ErrWriteDataSize
      | Some f1 \<Rightarrow>
         (case (if dataSize > 0 then fwrite (take (unat dataSize) (data node)) f1 else Some f1) of
            None \<Rightarrow> Inl ErrWriteData
          | Some f2 \<Rightarrow>
             (let randIndex = (case rand node of None \<Rightarrow> - 1 | Some r \<Rightarrow> index_at m r) in
              case fwrite (le32 randIndex) f2 of
                None \<Rightarrow> Inl ErrWriteRandIndex
              | Some f3 \<Rightarrow> Inr f3)))"

primrec writeNodes :: "heap \<Rightarrow> (addr \<rightharpoonup> int32) \<Rightarrow> addr list \<Rightarrow> wfile \<Rightarrow> (error + wfile) option" where
  "writeNodes h m [] f = Some (Inr f)"
| "writeNodes h m (a # as) f =
     (case hget h a of
        None \<Rightarrow> None
      | Some node \<Rightarrow>
         (case writeNode m node f of
            Inl e \<Rightarrow> Some (Inl e)
          | Inr f' \<Rightarrow> writeNodes h m as f'))"

text \<open>The result holds the state after the call next to the outcome.\<close>

definition Serialize :: "state \<Rightarrow> wfile option \<Rightarrow> (state \<times> (error + wfile)) option" where
  "Serialize s file = (case s of (h, l) \<Rightarrow>
     (case file of
        None \<Rightarrow> Some (s, Inl NotOpenForWriting)
      | Some f \<Rightarrow>
         (case fwrite (le32 (count l)) f of
            None \<Rightarrow> Some (s, Inl ErrWriteCount)
          | Some f1 \<Rightarrow> do {
              nodes \<leftarrow> collect h (head l) [];
              r \<leftarrow> writeNodes h (nodeToIndex nodes) nodes f1;
              Some (s, r)
            })))"

subsection \<open>\<^verbatim>\<open>List::Deserialize\<close>\<close>

text \<open>The source is the list of the bytes not yet read.\<close>

type_synonym rfile = "byte list"

definition fread :: "nat \<Rightarrow> rfile \<Rightarrow> (byte list \<times> rfile) option" where
  "fread k f = (if k \<le> length f then Some (take k f, drop k f) else None)"

definition readUint32 :: "rfile \<Rightarrow> error + (uint32 \<times> rfile)" where
  "readUint32 f = (case fread 4 f of None \<Rightarrow> Inl ErrReadUint32 | Some (bs, f') \<Rightarrow> Inr (rd32 bs, f'))"

text \<open>
  \<^verbatim>\<open>readNode\<close> allocates the node first; an exception destroys the \<^verbatim>\<open>unique_ptr\<close>
  and with it the node.
\<close>

definition readNode :: "heap \<Rightarrow> rfile \<Rightarrow> heap \<times> (error + (addr \<times> int32 \<times> rfile))" where
  "readNode h f = (case hnew h new_ListNode of (node, h1) \<Rightarrow>
     (case readUint32 f of
        Inl e \<Rightarrow> (hdelete h1 node, Inl e)
      | Inr (dataSize, f1) \<Rightarrow>
         (case (if dataSize > 0
                then (case fread (unat dataSize) f1 of
                        None \<Rightarrow> None
                      | Some (str, f2) \<Rightarrow> Some (h1[node := Some (new_ListNode\<lparr>data := str\<rparr>)], f2))
                else Some (h1, f1)) of
            None \<Rightarrow> (hdelete h1 node, Inl ErrReadNodeData)
          | Some (h2, f2) \<Rightarrow>
             (case fread 4 f2 of
                None \<Rightarrow> (hdelete h2 node, Inl ErrReadRandIndex)
              | Some (bs, f3) \<Rightarrow> (h2, Inr (node, rd32 bs, f3))))))"

text \<open>
  The reading loop, with the number of records still to read. An exception unwinds
  through \<^verbatim>\<open>tempNodes\<close>, which deletes every node read so far.
\<close>

primrec readNodes ::
  "nat \<Rightarrow> heap \<Rightarrow> rfile \<Rightarrow> addr list \<Rightarrow> int32 list \<Rightarrow>
   heap \<times> (error + (addr list \<times> int32 list \<times> rfile))" where
  "readNodes 0 h f rawNodes randIndices = (h, Inr (rawNodes, randIndices, f))"
| "readNodes (Suc k) h f rawNodes randIndices =
     (case readNode h f of
        (h1, Inl e) \<Rightarrow> (fold (\<lambda>a h'. hdelete h' a) rawNodes h1, Inl e)
      | (h1, Inr (node, randomIndex, f1)) \<Rightarrow>
          readNodes k h1 f1 (rawNodes @ [node]) (randIndices @ [randomIndex]))"

definition setupLinks :: "addr list \<Rightarrow> heap \<Rightarrow> heap option" where
  "setupLinks nodes h = (let n = length nodes in
     for_each [0..<n] (\<lambda>i h'. do {
       h1 \<leftarrow> store h' (nodes ! i) (\<lambda>x. x\<lparr>prev := (if i > 0 then Some (nodes ! (i - 1)) else None)\<rparr>);
       store h1 (nodes ! i) (\<lambda>x. x\<lparr>nxt := (if i < n - 1 then Some (nodes ! (i + 1)) else None)\<rparr>)
     }) h)"

definition setupRandPointers :: "addr list \<Rightarrow> int32 list \<Rightarrow> heap \<Rightarrow> heap option" where
  "setupRandPointers nodes randIndices h = (let n = length nodes in
     for_each [0..<n] (\<lambda>i h'.
       (let randomIndex = randIndices ! i in
        store h' (nodes ! i) (\<lambda>x. x\<lparr>rand :=
          (if sint randomIndex \<ge> 0 \<and> nat (sint randomIndex) < n
           then Some (nodes ! nat (sint randomIndex)) else None)\<rparr>))) h)"

definition Deserialize :: "state \<Rightarrow> rfile option \<Rightarrow> (state \<times> (error + rfile)) option" where
  "Deserialize s file = do {
     (h0, l0) \<leftarrow> Clear s;
     (case file of
        None \<Rightarrow> Some ((h0, l0), Inl NotOpenForReading)
      | Some f \<Rightarrow>
         (case readUint32 f of
            Inl e \<Rightarrow> Some ((h0, l0), Inl e)
          | Inr (newCount, f1) \<Rightarrow>
             (case readNodes (unat newCount) h0 f1 [] [] of
                (h1, Inl e) \<Rightarrow> Some ((h1, l0), Inl e)
              | (h1, Inr (rawNodes, randIndices, f2)) \<Rightarrow> do {
                  h2 \<leftarrow> setupLinks rawNodes h1;
                  h3 \<leftarrow> setupRandPointers rawNodes randIndices h2;
                  Some ((h3, l0\<lparr>head := (if newCount > 0 then Some (rawNodes ! 0) else None),
                              tail := (if newCount > 0 then Some (rawNodes ! (unat newCount - 1)) else None),
                              count := newCount\<rparr>), Inr f2)
                })))
   }"

subsection \<open>Well-formed lists\<close>

text \<open>
  \<open>chain h p as\<close>: following \<^verbatim>\<open>next\<close> from the pointer \<open>p\<close> visits exactly the nodes
  \<open>as\<close>, in this order, and then reaches \<^verbatim>\<open>nullptr\<close>.
\<close>

primrec chain :: "heap \<Rightarrow> addr option \<Rightarrow> addr list \<Rightarrow> bool" where
  "chain h p [] = (p = None)"
| "chain h p (a # as) = (p = Some a \<and> (case hget h a of None \<Rightarrow> False | Some n \<Rightarrow> chain h (nxt n) as))"

text \<open>The node an address holds (the default-initialised node for an address that holds none).\<close>

definition node :: "heap \<Rightarrow> addr \<Rightarrow> ListNode" where
  "node h a = (case hget h a of None \<Rightarrow> new_ListNode | Some n \<Rightarrow> n)"

text \<open>
  The invariant of a list object with the nodes \<open>as\<close>, in traversal order: \<^verbatim>\<open>head\<close> starts
  the chain, \<^verbatim>\<open>tail\<close> is its last node, \<^verbatim>\<open>count\<close> holds the low 32 bits of its length,
  \<^verbatim>\<open>prev\<close> mirrors \<^verbatim>\<open>next\<close>, and every \<^verbatim>\<open>rand\<close> is null or a node of the list.
\<close>

definition list_inv :: "state \<Rightarrow> addr list \<Rightarrow> bool" where
  "list_inv s as = (case s of (h, l) \<Rightarrow>
     chain h (head l) as \<and>
     tail l = (if as = [] then None else Some (last as)) \<and>
     count l = word_of_nat (length as) \<and>
     (\<forall>i < length as. prev (node h (as ! i)) = (if i = 0 then None else Some (as ! (i - 1)))) \<and>
     (\<forall>a \<in> set as. case rand (node h a) of None \<Rightarrow> True | Some r \<Rightarrow> r \<in> set as))"

subsection \<open>The states the operations reach\<close>

text \<open>
  A list object starts empty, in any store, and changes through its public operations
  only. An operation that has no result leads nowhere.
\<close>

inductive reachable :: "state \<Rightarrow> bool" where
  new: "reachable (h, empty_List)"
| AddNode: "reachable s \<Longrightarrow> AddNode d s = Some s' \<Longrightarrow> reachable s'"
| SetRand: "reachable s \<Longrightarrow> SetRand i j s = Some s' \<Longrightarrow> reachable s'"
| Clear: "reachable s \<Longrightarrow> Clear s = Some s' \<Longrightarrow> reachable s'"
| Deserialize: "reachable s \<Longrightarrow> Deserialize s src = Some (s', r) \<Longrightarrow> reachable s'"
| Serialize: "reachable s \<Longrightarrow> Serialize s out = Some (s', w) \<Longrightarrow> reachable s'"

subsection \<open>The binary format in the words of the specification\<close>

text \<open>
  The specification describes a list by the payload of each node, in traversal order,
  and the position of the node its cross-reference points to, if any (\<open>view\<close>). The
  encoded form is the node count as an unsigned 32-bit integer, then for each node the
  payload length as an unsigned 32-bit integer, the payload bytes, and the position as a
  signed 32-bit integer, \<open>-1\<close> for no cross-reference (\<open>spec_encode\<close>). These two
  definitions follow the specification, not the code; \<open>Serialize\<close> is compared with them.
\<close>

primrec index_of :: "addr list \<Rightarrow> addr \<Rightarrow> nat" where
  "index_of [] a = 0"
| "index_of (x # xs) a = (if x = a then 0 else Suc (index_of xs a))"

definition view :: "heap \<Rightarrow> addr list \<Rightarrow> (byte list \<times> nat option) list" where
  "view h as = map (\<lambda>a. (data (node h a), map_option (index_of as) (rand (node h a)))) as"

definition spec_record :: "byte list \<times> nat option \<Rightarrow> byte list" where
  "spec_record r = le32 (word_of_nat (length (fst r))) @ fst r @
                   le32 (case snd r of None \<Rightarrow> - 1 | Some j \<Rightarrow> word_of_nat j)"

definition spec_encode :: "(byte list \<times> nat option) list \<Rightarrow> byte list" where
  "spec_encode v = le32 (word_of_nat (length v)) @ concat (map spec_record v)"

subsection \<open>What the loops of the code send and take\<close>

text \<open>
  Closed forms of the loops of \<open>Serialize\<close> and \<open>Deserialize\<close>, each proved equal to the
  code below. \<open>node_bytes\<close> is what one round of the writing loop sends, \<open>encoded\<close> what
  \<open>Serialize\<close> sends in all, and \<open>put\<close> the sink after it.
\<close>

definition node_bytes :: "(addr \<rightharpoonup> int32) \<Rightarrow> ListNode \<Rightarrow> byte list" where
  "node_bytes m n =
     le32 (word_of_nat (length (data n))) @
     take (unat (word_of_nat (length (data n)) :: uint32)) (data n) @
     le32 (case rand n of None \<Rightarrow> - 1 | Some r \<Rightarrow> index_at m r)"

definition put :: "byte list \<Rightarrow> wfile \<Rightarrow> wfile" where
  "put bs f = f\<lparr>written := written f @ bs, room := room f - length bs\<rparr>"

definition encoded :: "heap \<Rightarrow> List \<Rightarrow> addr list \<Rightarrow> byte list" where
  "encoded h l as = le32 (count l) @ concat (map (\<lambda>a. node_bytes (nodeToIndex as) (node h a)) as)"

text \<open>
  A record of the stream is a payload and a stored index: \<open>record_bytes\<close> are its bytes
  and \<open>stored h as a\<close> is the record of the node \<open>a\<close> of the list \<open>as\<close>.
\<close>

definition record_bytes :: "byte list \<times> int32 \<Rightarrow> byte list" where
  "record_bytes r = le32 (word_of_nat (length (fst r))) @ fst r @ le32 (snd r)"

definition stored :: "heap \<Rightarrow> addr list \<Rightarrow> addr \<Rightarrow> byte list \<times> int32" where
  "stored h as a = (data (node h a),
      (case rand (node h a) of None \<Rightarrow> - 1 | Some r \<Rightarrow> index_at (nodeToIndex as) r))"

text \<open>
  \<open>read_record\<close> is what \<^verbatim>\<open>readNode\<close> takes from the source, leaving the store aside, and
  \<open>read_records\<close> what the reading loop takes.
\<close>

definition read_record :: "rfile \<Rightarrow> error + ((byte list \<times> int32) \<times> rfile)" where
  "read_record f =
     (case readUint32 f of
        Inl e \<Rightarrow> Inl e
      | Inr (dataSize, f1) \<Rightarrow>
         (case (if dataSize > 0 then fread (unat dataSize) f1 else Some ([], f1)) of
            None \<Rightarrow> Inl ErrReadNodeData
          | Some (str, f2) \<Rightarrow>
             (case fread 4 f2 of
                None \<Rightarrow> Inl ErrReadRandIndex
              | Some (bs, f3) \<Rightarrow> Inr ((str, rd32 bs), f3))))"

primrec read_records :: "nat \<Rightarrow> rfile \<Rightarrow> error + ((byte list \<times> int32) list \<times> rfile)" where
  "read_records 0 f = Inr ([], f)"
| "read_records (Suc k) f =
     (case read_record f of
        Inl e \<Rightarrow> Inl e
      | Inr (r, f1) \<Rightarrow>
         (case read_records k f1 of Inl e \<Rightarrow> Inl e | Inr (rs, f2) \<Rightarrow> Inr (r # rs, f2)))"

text \<open>
  The cell \<^verbatim>\<open>readNode\<close> leaves for a record (\<open>fresh_cell\<close>), the pointer
  \<^verbatim>\<open>setupRandPointers\<close> stores for an index when the \<open>n\<close> nodes are the addresses from
  \<open>b\<close> on (\<open>resolve\<close>), and the cells of the nodes once linked (\<open>decoded\<close>).
\<close>

definition fresh_cell :: "byte list \<times> int32 \<Rightarrow> ListNode option" where
  "fresh_cell r = Some (new_ListNode\<lparr>data := fst r\<rparr>)"

definition resolve :: "addr \<Rightarrow> nat \<Rightarrow> int32 \<Rightarrow> addr option" where
  "resolve b n x = (if sint x \<ge> 0 \<and> nat (sint x) < n then Some (b + nat (sint x)) else None)"

definition decoded :: "addr \<Rightarrow> (byte list \<times> int32) list \<Rightarrow> heap" where
  "decoded b recs = map (\<lambda>i. Some
       \<lparr>prev = (if i > 0 then Some (b + (i - 1)) else None),
        nxt = (if i < length recs - 1 then Some (b + (i + 1)) else None),
        rand = resolve b (length recs) (snd (recs ! i)),
        data = fst (recs ! i)\<rparr>) [0..<length recs]"

subsection \<open>Concrete lists and streams\<close>

text \<open>
  A list of two nodes whose first node refers to the second, as \<^verbatim>\<open>AddNode\<close>, \<^verbatim>\<open>AddNode\<close>
  and \<^verbatim>\<open>SetRand(0, 1)\<close> build it from the empty list in the empty store.
\<close>

definition example_heap :: heap where
  "example_heap =
     [Some \<lparr>prev = None, nxt = Some 1, rand = Some 1, data = [1]\<rparr>,
      Some \<lparr>prev = Some 0, nxt = None, rand = None, data = [2, 3]\<rparr>]"

definition example_List :: List where
  "example_List = \<lparr>head = Some 0, tail = Some 1, count = 2\<rparr>"

text \<open>
  A stream of three records with the stored indices 1, 7 and \<open>-1\<close>: an empty payload,
  the payload \<open>[9]\<close>, an empty payload.
\<close>

definition example_source :: rfile where
  "example_source = [3, 0, 0, 0,
                     0, 0, 0, 0, 1, 0, 0, 0,
                     1, 0, 0, 0, 9, 7, 0, 0, 0,
                     0, 0, 0, 0, 255, 255, 255, 255]"

text \<open>A single node with a payload of \<open>2\<^sup>3\<^sup>2\<close> bytes, as \<^verbatim>\<open>AddNode\<close> builds it.\<close>

definition huge_payload :: "byte list" where
  "huge_payload = replicate 4294967296 0"

definition huge_state :: state where
  "huge_state = ([Some \<lparr>prev = None, nxt = None, rand = None, data = huge_payload\<rparr>],
                 \<lparr>head = Some 0, tail = Some 0, count = 1\<rparr>)"

text \<open>A single node with a payload of \<open>2\<^sup>3\<^sup>2 + 1\<close> bytes.\<close>

definition long_payload :: "byte list" where
  "long_payload = replicate 4294967297 7"

definition long_state :: state where
  "long_state = ([Some \<lparr>prev = None, nxt = None, rand = None, data = long_payload\<rparr>],
                 \<lparr>head = Some 0, tail = Some 0, count = 1\<rparr>)"

text \<open>
  A stream of \<open>2\<^sup>3\<^sup>1\<close> records, each with an empty payload and the stored index \<open>-1\<close>,
  and the list \<^verbatim>\<open>Deserialize\<close> builds from it in the empty store.
\<close>

definition many_records :: "(byte list \<times> int32) list" where
  "many_records = replicate 2147483648 ([], - 1)"

definition many_source :: rfile where
  "many_source = [0, 0, 0, 128] @ concat (replicate 2147483648 [0, 0, 0, 0, 255, 255, 255, 255])"

definition many_state :: state where
  "many_state = (decoded 0 many_records, \<lparr>head = Some 0, tail = Some 2147483647, count = 2147483648\<rparr>)"

text \<open>
  A stream of \<open>2\<^sup>3\<^sup>1 - 1\<close> such records, and the list \<^verbatim>\<open>Deserialize\<close> builds from it in
  the empty store: its \<^verbatim>\<open>count\<close> is the largest \<^verbatim>\<open>int\<close>.
\<close>

definition full_records :: "(byte list \<times> int32) list" where
  "full_records = replicate 2147483647 ([], - 1)"

definition full_source :: rfile where
  "full_source = [255, 255, 255, 127] @ concat (replicate 2147483647 [0, 0, 0, 0, 255, 255, 255, 255])"

definition full_state :: state where
  "full_state = (decoded 0 full_records, \<lparr>head = Some 0, tail = Some 2147483646, count = 2147483647\<rparr>)"

section \<open>Properties\<close>

subsection \<open>Words\<close>

lemma sint_of_nat_le: "sint (word_of_nat n :: 32 word) \<le> int n"
  by (simp add: signed_of_nat signed_take_bit_int_less_eq_self_iff)

lemma sint_of_nat_small: "n < 2^31 \<Longrightarrow> sint (word_of_nat n :: 32 word) = int n"
  by (simp add: signed_of_nat signed_take_bit_int_eq_self)

lemma unat_of_nat_small: "n < 2^32 \<Longrightarrow> unat (word_of_nat n :: 32 word) = n"
  by (simp add: unat_of_nat)

lemma word_gt0_unat: "(w :: 32 word) > 0 \<longleftrightarrow> unat w > 0"
  by (metis not_gr_zero unat_gt_0 word_less_nat_alt)

lemma count_exact_bound:
  assumes "sint (c :: int32) = int n"
  shows "n < 2 ^ 31"
proof -
  have "sint c < 2 ^ 31" using sint_lt[of c] by simp
  with assms show ?thesis by simp
qed

lemma sint_succ:
  assumes "sint (c :: int32) < 2147483647"
  shows "sint (c + 1) = sint c + 1"
proof -
  have "- (2 ^ 31) \<le> sint c" using sint_ge[of c] by simp
  then have "signed_take_bit 31 (sint c + 1) = sint c + 1"
    using assms by (intro signed_take_bit_int_eq_self) simp_all
  then show ?thesis by (simp add: sint_word_add)
qed

lemma in_range_lt:
  "0 \<le> sint (i :: int32) \<Longrightarrow> sint i < sint (word_of_nat n :: int32) \<Longrightarrow> nat (sint i) < n"
  using sint_of_nat_le[of n] by linarith

subsection \<open>Chains in the store\<close>

lemma hget_update: "hget (h[a := x]) b = (if a = b \<and> a < length h then x else hget h b)"
  by (auto simp: hget_def)

lemma hget_append: "hget (h @ [x]) b = (if b = length h then x else hget h b)"
  by (auto simp: hget_def nth_append)

lemma hget_lt: "hget h a = Some n \<Longrightarrow> a < length h"
  by (auto simp: hget_def split: if_splits)

lemma node_update: "node (h[a := Some n]) b = (if a = b \<and> a < length h then n else node h b)"
  by (simp add: node_def hget_update)

lemma node_Some: "hget h a = Some n \<Longrightarrow> node h a = n"
  by (simp add: node_def)

lemma node_append: "node (h @ [Some n]) b = (if b = length h then n else node h b)"
  by (simp add: node_def hget_append)

lemma chain_None [simp]: "chain h None as = (as = [])"
  by (cases as) auto

lemma chain_unique: "chain h p as \<Longrightarrow> chain h p bs \<Longrightarrow> as = bs"
proof (induction as arbitrary: p bs)
  case Nil then show ?case by simp
next
  case (Cons a as)
  then show ?case by (cases bs) (auto split: option.splits)
qed

lemma chain_suffix: "chain h p (as @ a # bs) \<Longrightarrow> chain h (Some a) (a # bs)"
proof (induction as arbitrary: p)
  case Nil then show ?case by simp
next
  case (Cons x as)
  from Cons.prems obtain n :: ListNode where "chain h (nxt n) (as @ a # bs)" by (auto split: option.splits)
  then show ?case by (rule Cons.IH)
qed

lemma chain_head_notin: 
  assumes "chain h (Some a) (a # bs)" shows "a \<notin> set bs"
proof
  assume "a \<in> set bs"
  then obtain us vs where bs: "bs = us @ a # vs" by (auto simp: in_set_conv_decomp)
  from assms have "chain h (Some a) ((a # us) @ a # vs)" by (simp add: bs)
  from chain_suffix[OF this] have "chain h (Some a) (a # vs)" .
  from chain_unique[OF assms this] show False by (simp add: bs)
qed

lemma chain_distinct: "chain h p as \<Longrightarrow> distinct as"
proof (induction as arbitrary: p)
  case Nil then show ?case by simp
next
  case (Cons a as)
  from Cons.prems have p: "p = Some a" by simp
  from Cons.prems chain_head_notin[of h a as] have "a \<notin> set as" by (simp add: p)
  moreover from Cons.prems Cons.IH have "distinct as" by (auto split: option.splits)
  ultimately show ?case by simp
qed

lemma chain_valid: "chain h p as \<Longrightarrow> a \<in> set as \<Longrightarrow> \<exists>n. hget h a = Some n"
  by (induction as arbitrary: p) (auto split: option.splits)

lemma chain_update: "a \<notin> set as \<Longrightarrow> chain (h[a := x]) p as = chain h p as"
  by (induction as arbitrary: p) (auto simp: hget_update split: option.splits)

lemma chain_append_heap: "chain h p as \<Longrightarrow> chain (h @ xs) p as"
  by (induction as arbitrary: p) (auto simp: hget_def nth_append split: option.splits if_splits)

lemma collect_chain: "chain h p as \<Longrightarrow> collect h p acc = Some (acc @ as)"
proof (induction as arbitrary: p acc)
  case Nil then show ?case by (simp add: collect.simps)
next
  case (Cons a as)
  then show ?case by (subst collect.simps) (auto split: option.splits)
qed

lemma Clear_loop_chain: "chain h p as \<Longrightarrow> Clear_loop h p = Some (fold (\<lambda>a h'. hdelete h' a) as h)"
proof (induction as arbitrary: p h)
  case Nil then show ?case by (simp add: Clear_loop.simps)
next
  case (Cons a as)
  from Cons.prems obtain n where n: "p = Some a" "hget h a = Some n" "chain h (nxt n) as"
    by (auto split: option.splits)
  from chain_distinct[OF Cons.prems] have "a \<notin> set as" by simp
  with n have "chain (hdelete h a) (nxt n) as" by (simp add: hdelete_def chain_update)
  from Cons.IH[OF this] n show ?case by (subst Clear_loop.simps) simp
qed

lemma chain_same_nxt:
  "chain h p as \<Longrightarrow> hget h a = Some n \<Longrightarrow> nxt n' = nxt n \<Longrightarrow> chain (h[a := Some n']) p as"
proof (induction as arbitrary: p)
  case Nil then show ?case by simp
next
  case (Cons x as)
  then show ?case by (auto simp: hget_update split: option.splits dest: hget_lt)
qed

lemma chain_snoc:
  "chain h p as \<Longrightarrow> as \<noteq> [] \<Longrightarrow> a \<notin> set as \<Longrightarrow> hget h (last as) = Some nt \<Longrightarrow>
   hget h a = Some na \<Longrightarrow> nxt na = None \<Longrightarrow> nxt nt' = Some a \<Longrightarrow>
   chain (h[last as := Some nt']) p (as @ [a])"
proof (induction as arbitrary: p)
  case Nil then show ?case by simp
next
  case (Cons x as)
  from Cons.prems(1) obtain nx :: ListNode where nx: "p = Some x" "hget h x = Some nx" "chain h (nxt nx) as"
    by (auto split: option.splits)
  from chain_distinct[OF Cons.prems(1)] have xn: "x \<notin> set as" by simp
  show ?case
  proof (cases "as = []")
    case True
    with Cons.prems nx show ?thesis by (auto simp: hget_update dest: hget_lt)
  next
    case False
    then have "last as \<noteq> x" using xn last_in_set by metis
    with Cons.prems nx False Cons.IH[of "nxt nx"] show ?thesis
      by (auto simp: hget_update)
  qed
qed

lemma advance_chain:
  "chain h p as \<Longrightarrow> k < length as \<Longrightarrow> advance k h p = Some (Some (as ! k))"
proof (induction k arbitrary: p as)
  case 0 then show ?case by (cases as) auto
next
  case (Suc k)
  then show ?case by (cases as) (auto split: option.splits)
qed

lemma hget_fold_hdelete:
  "hget (fold (\<lambda>a h'. hdelete h' a) as h) b = (if b \<in> set as then None else hget h b)"
  by (induction as arbitrary: h) (auto simp: hdelete_def hget_update hget_def)

subsection \<open>The operations on a well-formed list\<close>

lemma example_inv: "list_inv (example_heap, example_List) [0, 1]"
  by (simp add: list_inv_def example_heap_def example_List_def hget_def node_def less_Suc_eq)

lemma list_inv_empty: "list_inv (h, empty_List) []"
  by (simp add: list_inv_def empty_List_def)

lemma list_inv_Nil_iff: "list_inv (h, l) [] \<longleftrightarrow> l = empty_List"
  by (auto simp: list_inv_def empty_List_def)

lemma AddNode_post:
  assumes inv: "list_inv (h, l) as"
  shows "\<exists>h' l' a. AddNode d (h, l) = Some (h', l') \<and> a \<notin> set as \<and> hget h a = None \<and>
           list_inv (h', l') (as @ [a]) \<and>
           node h' a = \<lparr>prev = tail l, nxt = None, rand = None, data = d\<rparr> \<and>
           (\<forall>b \<in> set as. data (node h' b) = data (node h b) \<and> rand (node h' b) = rand (node h b)) \<and>
           count l' = count l + 1"
proof -
  let ?a = "length h"
  let ?n0 = "new_ListNode\<lparr>data := d\<rparr>"
  let ?h1 = "h @ [Some ?n0]"
  from inv have ch: "chain h (head l) as" 
    and tl: "tail l = (if as = [] then None else Some (last as))"
    and cnt: "count l = word_of_nat (length as)"
    and pv: "\<forall>i < length as. prev (node h (as ! i)) = (if i = 0 then None else Some (as ! (i - 1)))"
    and rd: "\<forall>a \<in> set as. case rand (node h a) of None \<Rightarrow> True | Some r \<Rightarrow> r \<in> set as"
    by (auto simp: list_inv_def)
  have valid: "\<And>b. b \<in> set as \<Longrightarrow> b < length h"
    using chain_valid[OF ch] hget_lt by blast
  then have fresh: "?a \<notin> set as" by blast
  have none: "hget h ?a = None" by (simp add: hget_def)
  show ?thesis
  proof (cases "as = []")
    case True
    with ch have hd: "head l = None" by simp
    have "AddNode d (h, l) = Some (?h1, l\<lparr>head := Some ?a, tail := Some ?a, count := count l + 1\<rparr>)"
      by (simp add: AddNode_def hnew_def hd)
    moreover have "list_inv (?h1, l\<lparr>head := Some ?a, tail := Some ?a, count := count l + 1\<rparr>) ([] @ [?a])"
      using cnt True by (simp add: list_inv_def hget_append node_append new_ListNode_def)
    moreover have "node ?h1 ?a = \<lparr>prev = tail l, nxt = None, rand = None, data = d\<rparr>"
      using tl True by (simp add: node_append new_ListNode_def)
    ultimately have "AddNode d (h, l) = Some (?h1, l\<lparr>head := Some ?a, tail := Some ?a, count := count l + 1\<rparr>) \<and> ?a \<notin> set as \<and> hget h ?a = None \<and>
           list_inv (?h1, l\<lparr>head := Some ?a, tail := Some ?a, count := count l + 1\<rparr>) (as @ [?a]) \<and>
           node ?h1 ?a = \<lparr>prev = tail l, nxt = None, rand = None, data = d\<rparr> \<and>
           (\<forall>b \<in> set as. data (node ?h1 b) = data (node h b) \<and> rand (node ?h1 b) = rand (node h b)) \<and>
           count (l\<lparr>head := Some ?a, tail := Some ?a, count := count l + 1\<rparr>) = count l + 1"
      using True none by simp
    then show ?thesis by (intro exI)
  next
    case False
    let ?t = "last as"
    from False ch obtain x where hd: "head l = Some x" by (cases as) auto
    from False tl have tl': "tail l = Some ?t" by simp
    from False have tin: "?t \<in> set as" by simp
    with chain_valid[OF ch] obtain nt where nt: "hget h ?t = Some nt" by blast
    from tin valid have tlt: "?t < length h" by blast
    let ?nt' = "nt\<lparr>nxt := Some ?a\<rparr>"
    let ?h2 = "?h1[?t := Some ?nt']"
    let ?na = "?n0\<lparr>prev := Some ?t\<rparr>"
    let ?h3 = "?h2[?a := Some ?na]"
    let ?l' = "l\<lparr>tail := Some ?a, count := count l + 1\<rparr>"
    have s1: "store ?h1 ?t (\<lambda>n. n\<lparr>nxt := Some ?a\<rparr>) = Some ?h2"
      using nt tlt by (simp add: store_def hget_append)
    have s2: "store ?h2 ?a (\<lambda>n. n\<lparr>prev := Some ?t\<rparr>) = Some ?h3"
      using tlt by (simp add: store_def hget_update hget_append)
    have res: "AddNode d (h, l) = Some (?h3, ?l')"
      by (simp add: AddNode_def hnew_def hd tl' s1 s2)
    have ch1: "chain ?h1 (head l) as" using ch by (rule chain_append_heap)
    have "chain ?h2 (head l) (as @ [?a])"
      by (rule chain_snoc[OF ch1 False fresh, where nt = nt and na = "?n0"])
         (use nt tlt in \<open>simp_all add: hget_append new_ListNode_def\<close>)
    then have ch3: "chain ?h3 (head l) (as @ [?a])"
      by (rule chain_same_nxt[where n = "?n0"]) (use tlt in \<open>simp_all add: hget_update hget_append\<close>)
    have nodes_old: "\<And>b. b \<in> set as \<Longrightarrow> b \<noteq> ?t \<Longrightarrow> node ?h3 b = node h b"
      using valid by (auto simp: node_update node_append)
    have node_t: "node ?h3 ?t = ?nt'" using tlt by (simp add: node_update node_append)
    have node_a: "node ?h3 ?a = ?na" by (simp add: node_update)
    have nt_eq: "node h ?t = nt" using nt by (rule node_Some)
    have old: "\<And>b. b \<in> set as \<Longrightarrow> data (node ?h3 b) = data (node h b) \<and> rand (node ?h3 b) = rand (node h b) 
                 \<and> prev (node ?h3 b) = prev (node h b)"
      subgoal for b using nodes_old[of b] node_t nt_eq by (cases "b = ?t") auto
      done
    have pv': "\<forall>i < length (as @ [?a]). prev (node ?h3 ((as @ [?a]) ! i)) = (if i = 0 then None else Some ((as @ [?a]) ! (i - 1)))"
    proof (intro allI impI)
      fix i assume i: "i < length (as @ [?a])"
      show "prev (node ?h3 ((as @ [?a]) ! i)) = (if i = 0 then None else Some ((as @ [?a]) ! (i - 1)))"
      proof (cases "i < length as")
        case True
        then have "as ! i \<in> set as" by simp
        moreover from True have "i - 1 < length as" by simp
        ultimately show ?thesis using old[of "as ! i"] pv True by (simp add: nth_append)
      next
        case F: False
        with i have "i = length as" by simp
        moreover have "prev (node ?h3 ?a) = Some (last as)" by (simp add: node_a)
        ultimately show ?thesis using False by (simp add: nth_append last_conv_nth)
      qed
    qed
    have rd': "\<forall>b \<in> set (as @ [?a]). case rand (node ?h3 b) of None \<Rightarrow> True | Some r \<Rightarrow> r \<in> set (as @ [?a])"
    proof
      fix b assume "b \<in> set (as @ [?a])"
      then consider "b \<in> set as" | "b = ?a" by auto
      then show "case rand (node ?h3 b) of None \<Rightarrow> True | Some r \<Rightarrow> r \<in> set (as @ [?a])"
      proof cases
        case 1
        with old[of b] rd show ?thesis by (auto split: option.splits)
      next
        case 2
        moreover have "rand (node ?h3 ?a) = None" by (simp only: node_a) (simp add: new_ListNode_def)
        ultimately show ?thesis by simp
      qed
    qed
    have inv': "list_inv (?h3, ?l') (as @ [?a])"
      unfolding list_inv_def using ch3 pv' rd' cnt by simp
    have fin: "node ?h3 ?a = \<lparr>prev = tail l, nxt = None, rand = None, data = d\<rparr>"
      by (simp only: node_a) (simp add: tl' new_ListNode_def)
    have "AddNode d (h, l) = Some (?h3, ?l') \<and> ?a \<notin> set as \<and> hget h ?a = None \<and>
           list_inv (?h3, ?l') (as @ [?a]) \<and>
           node ?h3 ?a = \<lparr>prev = tail l, nxt = None, rand = None, data = d\<rparr> \<and>
           (\<forall>b \<in> set as. data (node ?h3 b) = data (node h b) \<and> rand (node ?h3 b) = rand (node h b)) \<and>
           count ?l' = count l + 1"
      using res fresh none inv' fin old by (intro conjI ballI) simp_all
    then show ?thesis by (intro exI)
  qed
qed

lemma SetRand_out_of_range:
  "sint i < 0 \<or> sint i \<ge> sint (count (snd s)) \<or> sint j < 0 \<or> sint j \<ge> sint (count (snd s)) \<Longrightarrow>
   SetRand i j s = Some s"
  by (cases s) (simp add: SetRand_def)

lemma SetRand_in_range:
  assumes inv: "list_inv (h, l) as"
    and i: "0 \<le> sint i" "sint i < sint (count l)"
    and j: "0 \<le> sint j" "sint j < sint (count l)"
  shows "nat (sint i) < length as \<and> nat (sint j) < length as \<and>
         SetRand i j (h, l) =
           Some (h[as ! nat (sint i) := Some ((node h (as ! nat (sint i)))\<lparr>rand := Some (as ! nat (sint j))\<rparr>)], l) \<and>
         list_inv (h[as ! nat (sint i) := Some ((node h (as ! nat (sint i)))\<lparr>rand := Some (as ! nat (sint j))\<rparr>)], l) as"
proof -
  let ?i = "nat (sint i)" and ?j = "nat (sint j)"
  from inv have ch: "chain h (head l) as" 
    and tl: "tail l = (if as = [] then None else Some (last as))"
    and cnt: "count l = word_of_nat (length as)"
    and pv: "\<forall>i < length as. prev (node h (as ! i)) = (if i = 0 then None else Some (as ! (i - 1)))"
    and rd: "\<forall>a \<in> set as. case rand (node h a) of None \<Rightarrow> True | Some r \<Rightarrow> r \<in> set as"
    by (auto simp: list_inv_def)
  from i j cnt have lt: "?i < length as" "?j < length as" by (auto intro: in_range_lt)
  let ?a = "as ! ?i"
  from lt have ain: "?a \<in> set as" by simp
  with chain_valid[OF ch] obtain n where n: "hget h ?a = Some n" by blast
  then have nd: "node h ?a = n" by (rule node_Some)
  let ?h' = "h[?a := Some (n\<lparr>rand := Some (as ! ?j)\<rparr>)]"
  have st: "store h ?a (\<lambda>n. n\<lparr>rand := Some (as ! ?j)\<rparr>) = Some ?h'"
    using n by (simp add: store_def)
  have res: "SetRand i j (h, l) = Some (?h', l)"
    using i j by (simp add: SetRand_def advance_chain[OF ch lt(1)] advance_chain[OF ch lt(2)] st)
  have ch': "chain ?h' (head l) as"
    using ch n by (rule chain_same_nxt) simp
  have alt: "?a < length h" using n by (rule hget_lt)
  have nodes: "\<And>b. node ?h' b = (if b = ?a then n\<lparr>rand := Some (as ! ?j)\<rparr> else node h b)"
    using alt by (auto simp: node_update)
  have pv': "\<forall>i < length as. prev (node ?h' (as ! i)) = (if i = 0 then None else Some (as ! (i - 1)))"
    using pv nd by (auto simp: nodes)
  have rd': "\<forall>a \<in> set as. case rand (node ?h' a) of None \<Rightarrow> True | Some r \<Rightarrow> r \<in> set as"
    using rd lt by (auto simp: nodes)
  have "list_inv (?h', l) as"
    unfolding list_inv_def using ch' tl cnt pv' rd' by simp
  with lt res show ?thesis by (simp add: nd)
qed

lemma Clear_list_inv:
  assumes "list_inv (h, l) as"
  shows "Clear (h, l) = Some (fold (\<lambda>a h'. hdelete h' a) as h, empty_List)"
proof -
  from assms have "chain h (head l) as" by (simp add: list_inv_def)
  then show ?thesis by (simp add: Clear_def Clear_loop_chain empty_List_def)
qed

lemma Clear_empty: "Clear (h, empty_List) = Some (h, empty_List)"
  by (simp add: Clear_def Clear_loop.simps empty_List_def)

lemma Clear_result: "Clear s = Some s' \<Longrightarrow> snd s' = empty_List"
  by (cases s) (auto simp: Clear_def empty_List_def split: Option.bind_splits)

lemma Serialize_frame: "Serialize s file = Some (s', r) \<Longrightarrow> s' = s"
  by (cases s) (auto simp: Serialize_def split: option.splits Option.bind_splits)

lemma writeNodes_total:
  "\<forall>a \<in> set as. \<exists>n. hget h a = Some n \<Longrightarrow> \<exists>r. writeNodes h m as f = Some r"
  by (induction as arbitrary: f) (auto split: sum.splits)

lemma Serialize_total:
  assumes "list_inv (h, l) as"
  shows "\<exists>r. Serialize (h, l) file = Some ((h, l), r)"
proof -
  from assms have ch: "chain h (head l) as" by (simp add: list_inv_def)
  from chain_valid[OF ch] have "\<forall>a \<in> set as. \<exists>n. hget h a = Some n" by blast
  from writeNodes_total[OF this] have "\<And>f. \<exists>r. writeNodes h (nodeToIndex as) as f = Some r" by blast
  then have "\<And>f. \<exists>r. (writeNodes h (nodeToIndex as) as f \<bind> (\<lambda>r. Some ((h, l), r))) = Some ((h, l), r)"
    by (metis bind.bind_lunit)
  with collect_chain[OF ch, of "[]"] show ?thesis
    by (cases "file") (auto simp: Serialize_def split: option.splits)
qed

subsection \<open>Reading and writing\<close>

lemma rd32_le32: "rd32 (le32 w) = w"
  unfolding rd32_def le32_def
  apply (rule bit_word_eqI)
  apply (auto simp: bit_simps)
  subgoal for n by (cases "n < 16"; cases "n < 24"; simp)
  done

lemma length_le32 [simp]: "length (le32 w) = 4"
  by (simp add: le32_def)

lemma fread_append: "fread (length bs) (bs @ rest) = Some (bs, rest)"
  by (simp add: fread_def)

lemma readUint32_le32: "readUint32 (le32 w @ rest) = Inr (w, rest)"
  using fread_append[of "le32 w" rest] by (simp add: readUint32_def rd32_le32)

lemma readNode_eq:
  "readNode h f =
     (case read_record f of
        Inl e \<Rightarrow> (h @ [None], Inl e)
      | Inr (r, f') \<Rightarrow> (h @ [fresh_cell r], Inr (length h, snd r, f')))"
  by (auto simp: readNode_def read_record_def hnew_def hdelete_def fresh_cell_def new_ListNode_def
           split: sum.splits option.splits prod.splits)

lemma read_records_length: "read_records k f = Inr (recs, f') \<Longrightarrow> length recs = k"
  by (induction k arbitrary: f recs) (auto split: sum.splits prod.splits)

lemma readNodes_fail:
  "read_records k f = Inl e \<Longrightarrow> snd (readNodes k h f nodes idxs) = Inl e"
proof (induction k arbitrary: h f nodes idxs)
  case 0 then show ?case by simp
next
  case (Suc k)
  then show ?case
    by (auto simp: readNode_eq split: sum.splits prod.splits)
qed

lemma readNodes_ok:
  "read_records k f = Inr (recs, f') \<Longrightarrow>
   readNodes k h f nodes idxs =
     (h @ map fresh_cell recs, Inr (nodes @ [length h..<length h + k], idxs @ map snd recs, f'))"
proof (induction k arbitrary: h f nodes idxs recs)
  case 0 then show ?case by simp
next
  case (Suc k)
  from Suc.prems obtain r f1 rs where r: "read_record f = Inr (r, f1)"
    and rs: "read_records k f1 = Inr (rs, f')" and recs: "recs = r # rs"
    by (auto split: sum.splits prod.splits)
  have "[length h..<length h + Suc k] = length h # [Suc (length h)..<Suc (length h) + k]"
    by (simp add: upt_rec)
  with Suc.IH[OF rs, of "h @ [fresh_cell r]" "nodes @ [length h]" "idxs @ [snd r]"] r recs
  show ?case by (simp add: readNode_eq)
qed

lemma for_each_append:
  "for_each (xs @ ys) body s = (case for_each xs body s of None \<Rightarrow> None | Some s' \<Rightarrow> for_each ys body s')"
  by (induction xs arbitrary: s) (auto split: option.splits)

lemma for_each_cong:
  "(\<And>x s. x \<in> set xs \<Longrightarrow> f x s = g x s) \<Longrightarrow> for_each xs f s = for_each xs g s"
  by (induction xs arbitrary: s) (auto split: option.splits)

lemma store_bind: "store h a f \<bind> (\<lambda>h1. store h1 a g) = store h a (g \<circ> f)"
  by (auto simp: store_def hget_def split: option.splits)

lemma store_cells:
  assumes "k < length cells"
  shows "store (h0 @ map Some cells) (length h0 + k) g = Some (h0 @ map Some (cells[k := g (cells ! k)]))"
  using assms by (simp add: store_def hget_def nth_append list_update_append map_update)

lemma for_each_store_range:
  "k \<le> length cells \<Longrightarrow>
   for_each [0..<k] (\<lambda>i h. store h (length h0 + i) (g i)) (h0 @ map Some cells) =
     Some (h0 @ map Some (map (\<lambda>i. g i (cells ! i)) [0..<k] @ drop k cells))"
proof (induction k)
  case 0 then show ?case by simp
next
  case (Suc k)
  let ?A = "map (\<lambda>i. g i (cells ! i)) [0..<k]"
  from Suc.prems have k: "k < length cells" by simp
  have len: "k < length (?A @ drop k cells)" using k by simp
  have nth: "(?A @ drop k cells) ! k = cells ! k" using k by (simp add: nth_append)
  have upd: "(?A @ drop k cells)[k := g k (cells ! k)] = ?A @ [g k (cells ! k)] @ drop (Suc k) cells"
    using k by (simp add: list_update_append upd_conv_take_nth_drop drop_Suc tl_drop)
  have "for_each [0..<Suc k] (\<lambda>i h. store h (length h0 + i) (g i)) (h0 @ map Some cells) =
        store (h0 @ map Some (?A @ drop k cells)) (length h0 + k) (g k)"
    using Suc.IH k by (simp add: for_each_append split: option.splits)
  also have "\<dots> = Some (h0 @ map Some (?A @ [g k (cells ! k)] @ drop (Suc k) cells))"
    using store_cells[OF len, of h0 "g k"] by (simp only: nth upd)
  finally show ?case by simp
qed

lemma for_each_store_all:
  "for_each [0..<length cells] (\<lambda>i h. store h (length h0 + i) (g i)) (h0 @ map Some cells) =
     Some (h0 @ map Some (map (\<lambda>i. g i (cells ! i)) [0..<length cells]))"
  using for_each_store_range[of "length cells" cells h0 g] by simp

lemma nth_range: "i < n \<Longrightarrow> [b..<b + n] ! i = b + i"
  by simp

lemma setupLinks_range:
  "setupLinks [length h0..<length h0 + length cells] (h0 @ map Some cells) =
     Some (h0 @ map Some (map (\<lambda>i. (cells ! i)
        \<lparr>prev := (if i > 0 then Some (length h0 + (i - 1)) else None),
         nxt := (if i < length cells - 1 then Some (length h0 + (i + 1)) else None)\<rparr>) [0..<length cells]))"
proof -
  let ?n = "length cells" and ?b = "length h0"
  let ?g = "\<lambda>i (x :: ListNode). x\<lparr>prev := (if i > 0 then Some (?b + (i - 1)) else None),
         nxt := (if i < ?n - 1 then Some (?b + (i + 1)) else None)\<rparr>"
  have "setupLinks [?b..<?b + ?n] (h0 @ map Some cells) =
        for_each [0..<?n] (\<lambda>i h. store h (?b + i) (?g i)) (h0 @ map Some cells)"
    unfolding setupLinks_def Let_def length_upt add_diff_cancel_left'
  proof (rule for_each_cong)
    fix i :: nat and s :: heap
    assume "i \<in> set [0..<?n]"
    then have i: "i < ?n" by simp
    then have a: "[?b..<?b + ?n] ! i = ?b + i" "0 < i \<Longrightarrow> [?b..<?b + ?n] ! (i - 1) = ?b + (i - 1)"
      "i < ?n - 1 \<Longrightarrow> [?b..<?b + ?n] ! (i + 1) = ?b + (i + 1)" by auto
    have "store s (?b + i) (?g i) = 
          store s (?b + i) (\<lambda>x. x\<lparr>prev := if 0 < i then Some (?b + (i - 1)) else None\<rparr>) \<bind>
          (\<lambda>h1. store h1 (?b + i) (\<lambda>x. x\<lparr>nxt := if i < ?n - 1 then Some (?b + (i + 1)) else None\<rparr>))"
      by (simp add: store_bind comp_def)
    then show "store s ([?b..<?b + ?n] ! i)
          (\<lambda>x. x\<lparr>prev := if 0 < i then Some ([?b..<?b + ?n] ! (i - 1)) else None\<rparr>) \<bind>
         (\<lambda>h1. store h1 ([?b..<?b + ?n] ! i)
                (\<lambda>x. x\<lparr>nxt := if i < ?n - 1 then Some ([?b..<?b + ?n] ! (i + 1)) else None\<rparr>)) =
         store s (?b + i) (?g i)"
      using a by (cases "0 < i"; cases "i < ?n - 1"; simp)
  qed
  then show ?thesis by (simp only: for_each_store_all)
qed

lemma setupRandPointers_range:
  "setupRandPointers [length h0..<length h0 + length cells] idxs (h0 @ map Some cells) =
     Some (h0 @ map Some (map (\<lambda>i. (cells ! i)
        \<lparr>rand := resolve (length h0) (length cells) (idxs ! i)\<rparr>) [0..<length cells]))"
proof -
  let ?n = "length cells" and ?b = "length h0"
  let ?g = "\<lambda>i (x :: ListNode). x\<lparr>rand := resolve ?b ?n (idxs ! i)\<rparr>"
  have "setupRandPointers [?b..<?b + ?n] idxs (h0 @ map Some cells) =
        for_each [0..<?n] (\<lambda>i h. store h (?b + i) (?g i)) (h0 @ map Some cells)"
    unfolding setupRandPointers_def Let_def length_upt add_diff_cancel_left'
  proof (rule for_each_cong)
    fix i :: nat and s :: heap
    assume "i \<in> set [0..<?n]"
    then have i: "i < ?n" by simp
    then have a: "[?b..<?b + ?n] ! i = ?b + i" by simp
    have b: "nat (sint (idxs ! i)) < ?n \<Longrightarrow> [?b..<?b + ?n] ! nat (sint (idxs ! i)) = ?b + nat (sint (idxs ! i))"
      by simp
    show "store s ([?b..<?b + ?n] ! i)
          (\<lambda>x. x\<lparr>rand := if 0 \<le> sint (idxs ! i) \<and> nat (sint (idxs ! i)) < ?n
                          then Some ([?b..<?b + ?n] ! nat (sint (idxs ! i))) else None\<rparr>) =
         store s (?b + i) (?g i)"
      using a b by (auto simp: resolve_def)
  qed
  then show ?thesis by (simp only: for_each_store_all)
qed

lemma setup_decoded:
  assumes "h1 = h0 @ map fresh_cell recs" "nodes = [length h0..<length h0 + length recs]"
  shows "setupLinks nodes h1 \<bind> setupRandPointers nodes (map snd recs) =
         Some (h0 @ decoded (length h0) recs)"
proof -
  let ?cells = "map (\<lambda>r. new_ListNode\<lparr>data := fst r\<rparr>) recs"
  have h1: "h1 = h0 @ map Some ?cells" by (simp add: assms fresh_cell_def comp_def)
  have n: "nodes = [length h0..<length h0 + length ?cells]" by (simp add: assms)
  let ?cells2 = "map (\<lambda>i. (?cells ! i)
        \<lparr>prev := (if i > 0 then Some (length h0 + (i - 1)) else None),
         nxt := (if i < length ?cells - 1 then Some (length h0 + (i + 1)) else None)\<rparr>) [0..<length ?cells]"
  have n2: "nodes = [length h0..<length h0 + length ?cells2]" by (simp add: assms)
  have 1: "setupLinks nodes h1 = Some (h0 @ map Some ?cells2)"
    unfolding h1 n by (rule setupLinks_range)
  have 2: "setupRandPointers nodes (map snd recs) (h0 @ map Some ?cells2) =
     Some (h0 @ map Some (map (\<lambda>i. (?cells2 ! i)
        \<lparr>rand := resolve (length h0) (length ?cells2) (map snd recs ! i)\<rparr>) [0..<length ?cells2]))"
    unfolding n2 by (rule setupRandPointers_range)
  have 3: "map Some (map (\<lambda>i. (?cells2 ! i)
        \<lparr>rand := resolve (length h0) (length ?cells2) (map snd recs ! i)\<rparr>) [0..<length ?cells2])
        = decoded (length h0) recs"
    by (simp add: decoded_def new_ListNode_def)
  show ?thesis unfolding 1 by (simp only: bind.bind_lunit 2 3)
qed

lemma hget_decoded:
  "i < length recs \<Longrightarrow> hget (h0 @ decoded (length h0) recs) (length h0 + i) = Some
       \<lparr>prev = (if i > 0 then Some (length h0 + (i - 1)) else None),
        nxt = (if i < length recs - 1 then Some (length h0 + (i + 1)) else None),
        rand = resolve (length h0) (length recs) (snd (recs ! i)),
        data = fst (recs ! i)\<rparr>"
  by (simp add: hget_def decoded_def nth_append)

lemma chain_decoded:
  "n = length recs \<Longrightarrow> b = length h0 \<Longrightarrow> n - k = m \<Longrightarrow> k \<le> n \<Longrightarrow>
   chain (h0 @ decoded b recs) (if k < n then Some (b + k) else None) [b + k..<b + n]"
proof (induction m arbitrary: k)
  case 0
  then show ?case by simp
next
  case (Suc m)
  then have k: "k < n" by simp
  have up: "[b + k..<b + n] = (b + k) # [b + Suc k..<b + n]" using k by (simp add: upt_rec)
  from Suc.prems k have IH: "chain (h0 @ decoded b recs) (if Suc k < n then Some (b + Suc k) else None) [b + Suc k..<b + n]"
    by (intro Suc.IH) auto
  obtain x :: ListNode where x: "hget (h0 @ decoded b recs) (b + k) = Some x"
      "nxt x = (if Suc k < n then Some (b + Suc k) else None)"
  proof -
    have e: "(if k < length recs - 1 then Some (length h0 + (k + 1)) else None) =
          (if Suc k < n then Some (b + Suc k) else None)"
      using Suc.prems(1,2) by auto
    show ?thesis
      using hget_decoded[of k recs h0] k Suc.prems(1,2) e
      by (intro that[of "\<lparr>prev = (if k > 0 then Some (length h0 + (k - 1)) else None),
        nxt = (if k < length recs - 1 then Some (length h0 + (k + 1)) else None),
        rand = resolve (length h0) (length recs) (snd (recs ! k)),
        data = fst (recs ! k)\<rparr>"]) simp_all
  qed
  have "chain (h0 @ decoded b recs) (Some (b + k)) ((b + k) # [b + Suc k..<b + n])"
    using IH x by simp
  then show ?case using k up by simp
qed

lemma decoded_inv:
  assumes "length recs = unat c"
  shows "list_inv (h0 @ decoded (length h0) recs,
            \<lparr>head = (if c > 0 then Some (length h0) else None),
             tail = (if c > 0 then Some (length h0 + (unat c - 1)) else None),
             count = c\<rparr>) [length h0..<length h0 + length recs]"
proof -
  let ?b = "length h0" and ?n = "length recs"
  let ?H = "h0 @ decoded ?b recs"
  have c0: "c > 0 \<longleftrightarrow> 0 < ?n" by (simp add: assms word_gt0_unat)
  have ch: "chain ?H (if c > 0 then Some ?b else None) [?b..<?b + ?n]"
    using chain_decoded[of ?n recs ?b h0 0 ?n] by (simp add: c0 split: if_splits)
  have tl: "(if c > 0 then Some (?b + (unat c - 1)) else None) =
            (if [?b..<?b + ?n] = [] then None else Some (last [?b..<?b + ?n]))"
    using c0 assms by (auto simp: last_upt)
  have cnt: "c = word_of_nat (length [?b..<?b + ?n])" by (simp add: assms)
  have nd: "\<And>i. i < ?n \<Longrightarrow> node ?H (?b + i) = 
       \<lparr>prev = (if i > 0 then Some (?b + (i - 1)) else None),
        nxt = (if i < ?n - 1 then Some (?b + (i + 1)) else None),
        rand = resolve ?b ?n (snd (recs ! i)),
        data = fst (recs ! i)\<rparr>"
    by (simp add: node_def hget_decoded)
  have pv: "\<forall>i < length [?b..<?b + ?n]. prev (node ?H ([?b..<?b + ?n] ! i)) =
             (if i = 0 then None else Some ([?b..<?b + ?n] ! (i - 1)))"
    by (auto simp: nd)
  have rd: "\<forall>a \<in> set [?b..<?b + ?n]. case rand (node ?H a) of None \<Rightarrow> True | Some r \<Rightarrow> r \<in> set [?b..<?b + ?n]"
  proof
    fix a assume "a \<in> set [?b..<?b + ?n]"
    then obtain i where i: "a = ?b + i" "i < ?n" by (auto simp: le_iff_add)
    show "case rand (node ?H a) of None \<Rightarrow> True | Some r \<Rightarrow> r \<in> set [?b..<?b + ?n]"
      using i by (auto simp: nd resolve_def split: option.splits)
  qed
  show ?thesis unfolding list_inv_def using ch tl cnt pv rd by (simp only: prod.case List.simps)
qed

lemma Deserialize_read_ok:
  assumes "Clear s = Some (h0, l0)" "readUint32 f = Inr (c, f1)"
    "read_records (unat c) f1 = Inr (recs, f2)"
  shows "Deserialize s (Some f) = Some ((h0 @ decoded (length h0) recs,
            \<lparr>head = (if c > 0 then Some (length h0) else None),
             tail = (if c > 0 then Some (length h0 + (unat c - 1)) else None),
             count = c\<rparr>), Inr f2)"
proof -
  have l0: "l0 = empty_List" using Clear_result[OF assms(1)] by simp
  have n: "length recs = unat c" using assms(3) by (rule read_records_length)
  let ?nodes = "[length h0..<length h0 + unat c]"
  have rn: "readNodes (unat c) h0 f1 [] [] = (h0 @ map fresh_cell recs, Inr (?nodes, map snd recs, f2))"
    using readNodes_ok[OF assms(3), of h0 "[]" "[]"] by simp
  have su: "setupLinks ?nodes (h0 @ map fresh_cell recs) \<bind> setupRandPointers ?nodes (map snd recs) =
         Some (h0 @ decoded (length h0) recs)"
    by (rule setup_decoded) (simp_all add: n)
  have c0: "c > 0 \<Longrightarrow> 0 < unat c" by (simp add: word_gt0_unat)
  from su obtain h2 where h2: "setupLinks ?nodes (h0 @ map fresh_cell recs) = Some h2"
     "setupRandPointers ?nodes (map snd recs) h2 = Some (h0 @ decoded (length h0) recs)"
    by (auto simp: bind_eq_Some_conv)
  show ?thesis
    using c0 by (simp add: Deserialize_def assms(1,2) rn h2 l0 empty_List_def)
qed

lemma Deserialize_fail_empty:
  assumes "Deserialize s file = Some (s', Inl e)"
  shows "snd s' = empty_List"
proof -
  from assms obtain h0 l0 where c: "Clear s = Some (h0, l0)"
    by (auto simp: Deserialize_def bind_eq_Some_conv)
  then have l0: "l0 = empty_List" using Clear_result by fastforce
  from assms show ?thesis
    by (auto simp: Deserialize_def c l0 bind_eq_Some_conv split: option.splits sum.splits prod.splits)
qed

lemma Deserialize_total:
  assumes "Clear s = Some (h0, l0)"
  shows "\<exists>s' r. Deserialize s file = Some (s', r) \<and> (\<exists>as. list_inv s' as)"
proof -
  have l0: "l0 = empty_List" using Clear_result[OF assms] by simp
  show ?thesis
  proof (cases "file")
    case None
    then show ?thesis using list_inv_empty by (auto simp: Deserialize_def assms l0)
  next
    case (Some f)
    show ?thesis
    proof (cases "readUint32 f")
      case (Inl e)
      then show ?thesis using list_inv_empty by (auto simp: Deserialize_def assms l0 Some)
    next
      case (Inr p)
      then obtain c f1 where p: "readUint32 f = Inr (c, f1)" by (cases p) auto
      show ?thesis
      proof (cases "read_records (unat c) f1")
        case (Inl e)
        obtain h1 where "readNodes (unat c) h0 f1 [] [] = (h1, Inl e)"
          using readNodes_fail[OF Inl, of h0 "[]" "[]"] by (cases "readNodes (unat c) h0 f1 [] []") auto
        then show ?thesis using list_inv_empty by (auto simp: Deserialize_def assms l0 Some p)
      next
        case (Inr q)
        then obtain recs f2 where q: "read_records (unat c) f1 = Inr (recs, f2)" by (cases q) auto
        from Deserialize_read_ok[OF assms p q] decoded_inv[OF read_records_length[OF q], of h0]
        show ?thesis using Some by blast
      qed
    qed
  qed
qed

lemma index_of_nth: "distinct xs \<Longrightarrow> i < length xs \<Longrightarrow> index_of xs (xs ! i) = i"
proof (induction xs arbitrary: i)
  case Nil then show ?case by simp
next
  case (Cons x xs) then show ?case by (cases i) auto
qed

lemma index_of_less: "a \<in> set xs \<Longrightarrow> index_of xs a < length xs \<and> xs ! index_of xs a = a"
  by (induction xs) auto

lemma nodeToIndex_prefix:
  "distinct nodes \<Longrightarrow> k \<le> length nodes \<Longrightarrow> i < k \<Longrightarrow>
   fold (\<lambda>i m. m(nodes ! i \<mapsto> (word_of_nat i :: int32))) [0..<k] m0 (nodes ! i) = Some (word_of_nat i)"
proof (induction k)
  case 0 then show ?case by simp
next
  case (Suc k)
  show ?case
  proof (cases "i = k")
    case True then show ?thesis by simp
  next
    case False
    with Suc.prems have "i < k" "nodes ! k \<noteq> nodes ! i" by (auto simp: nth_eq_iff_index_eq)
    with Suc show ?thesis by simp
  qed
qed

lemma index_at_nodeToIndex:
  "distinct nodes \<Longrightarrow> a \<in> set nodes \<Longrightarrow> index_at (nodeToIndex nodes) a = word_of_nat (index_of nodes a)"
  using nodeToIndex_prefix[of nodes "length nodes" "index_of nodes a" Map.empty] index_of_less[of a nodes]
  by (simp add: index_at_def nodeToIndex_def)

lemma fwrite_put: "fwrite bs f = (if length bs \<le> room f then Some (put bs f) else None)"
  by (simp add: fwrite_def put_def)

lemma put_put: "put bs (put as f) = put (as @ bs) f"
  by (simp add: put_def)

lemma put_Nil: "put [] f = f"
  by (simp add: put_def)

lemma room_put: "room (put bs f) = room f - length bs"
  by (simp add: put_def)

lemma writeNode_ok:
  "length (node_bytes m n) \<le> room f \<Longrightarrow> writeNode m n f = Inr (put (node_bytes m n) f)"
  by (auto simp: writeNode_def node_bytes_def Let_def fwrite_put put_put room_put word_gt0_unat
           split: option.splits)

lemma writeNode_short:
  "room f < length (node_bytes m n) \<Longrightarrow> \<exists>e. writeNode m n f = Inl e"
  by (auto simp: writeNode_def node_bytes_def Let_def fwrite_put put_put room_put word_gt0_unat
           split: option.splits)

lemma writeNodes_ok:
  "\<forall>a \<in> set as. \<exists>n. hget h a = Some n \<Longrightarrow>
   length (concat (map (\<lambda>a. node_bytes m (node h a)) as)) \<le> room f \<Longrightarrow>
   writeNodes h m as f = Some (Inr (put (concat (map (\<lambda>a. node_bytes m (node h a)) as)) f))"
proof (induction as arbitrary: f)
  case Nil then show ?case by (simp add: put_Nil)
next
  case (Cons a as)
  from Cons.prems(1) obtain n where n: "hget h a = Some n" by auto
  then have nd: "node h a = n" by (rule node_Some)
  from Cons.prems(2) have 1: "length (node_bytes m n) \<le> room f" by (simp add: nd)
  from Cons.prems(2) have 2: "length (concat (map (\<lambda>a. node_bytes m (node h a)) as)) \<le> room (put (node_bytes m n) f)"
    by (simp add: nd room_put)
  from Cons.IH[OF _ 2] Cons.prems(1) show ?case
    by (simp add: n nd writeNode_ok[OF 1] put_put)
qed

lemma writeNodes_short:
  "\<forall>a \<in> set as. \<exists>n. hget h a = Some n \<Longrightarrow>
   room f < length (concat (map (\<lambda>a. node_bytes m (node h a)) as)) \<Longrightarrow>
   \<exists>e. writeNodes h m as f = Some (Inl e)"
proof (induction as arbitrary: f)
  case Nil then show ?case by simp
next
  case (Cons a as)
  from Cons.prems(1) obtain n where n: "hget h a = Some n" by auto
  then have nd: "node h a = n" by (rule node_Some)
  show ?case
  proof (cases "length (node_bytes m n) \<le> room f")
    case True
    with Cons.prems(2) have "room (put (node_bytes m n) f) < length (concat (map (\<lambda>a. node_bytes m (node h a)) as))"
      by (simp add: nd room_put)
    from Cons.IH[OF _ this] Cons.prems(1) show ?thesis
      by (simp add: n writeNode_ok[OF True])
  next
    case False
    then have "room f < length (node_bytes m n)" by simp
    from writeNode_short[OF this] show ?thesis by (auto simp: n)
  qed
qed

lemma Serialize_ok:
  assumes "list_inv (h, l) as" "length (encoded h l as) \<le> room f"
  shows "Serialize (h, l) (Some f) = Some ((h, l), Inr (put (encoded h l as) f))"
proof -
  from assms(1) have ch: "chain h (head l) as" by (simp add: list_inv_def)
  from chain_valid[OF ch] have v: "\<forall>a \<in> set as. \<exists>n. hget h a = Some n" by blast
  from assms(2) have 1: "4 \<le> room f" by (simp add: encoded_def)
  from assms(2) have 2: "length (concat (map (\<lambda>a. node_bytes (nodeToIndex as) (node h a)) as)) \<le> room (put (le32 (count l)) f)"
    by (simp add: encoded_def room_put)
  show ?thesis
    using collect_chain[OF ch, of "[]"] writeNodes_ok[OF v 2] 1
    by (simp add: Serialize_def fwrite_put put_put encoded_def)
qed

lemma Serialize_short:
  assumes "list_inv (h, l) as" "room f < length (encoded h l as)"
  shows "\<exists>e. Serialize (h, l) (Some f) = Some ((h, l), Inl e)"
proof -
  from assms(1) have ch: "chain h (head l) as" by (simp add: list_inv_def)
  from chain_valid[OF ch] have v: "\<forall>a \<in> set as. \<exists>n. hget h a = Some n" by blast
  show ?thesis
  proof (cases "4 \<le> room f")
    case True
    with assms(2) have "room (put (le32 (count l)) f) < length (concat (map (\<lambda>a. node_bytes (nodeToIndex as) (node h a)) as))"
      by (simp add: encoded_def room_put)
    from writeNodes_short[OF v this] True collect_chain[OF ch, of "[]"] show ?thesis
      by (auto simp: Serialize_def fwrite_put)
  next
    case False
    then show ?thesis by (simp add: Serialize_def fwrite_put)
  qed
qed

lemma read_record_bytes:
  assumes "length (fst r) < 2 ^ 32"
  shows "read_record (record_bytes r @ rest) = Inr (r, rest)"
proof -
  obtain d x where r: "r = (d, x)" by (cases r)
  let ?w = "word_of_nat (length d) :: uint32"
  from assms have u: "unat ?w = length d" by (simp add: r unat_of_nat_small)
  have 1: "readUint32 (record_bytes r @ rest) = Inr (?w, d @ le32 x @ rest)"
    using readUint32_le32[of ?w "d @ le32 x @ rest"] by (simp add: record_bytes_def r)
  have 2: "(if ?w > 0 then fread (unat ?w) (d @ le32 x @ rest) else Some ([], d @ le32 x @ rest)) =
           Some (d, le32 x @ rest)"
    using fread_append[of d "le32 x @ rest"] u by (auto simp: word_gt0_unat)
  have 3: "fread 4 (le32 x @ rest) = Some (le32 x, rest)"
    using fread_append[of "le32 x" rest] by simp
  show ?thesis unfolding read_record_def 1 by (simp only: sum.case prod.case 2 3 option.case rd32_le32 r)
qed

lemma read_records_bytes:
  "\<forall>r \<in> set recs. length (fst r) < 2 ^ 32 \<Longrightarrow>
   read_records (length recs) (concat (map record_bytes recs) @ rest) = Inr (recs, rest)"
proof (induction recs)
  case Nil then show ?case by simp
next
  case (Cons r recs)
  then show ?case using read_record_bytes[of r "concat (map record_bytes recs) @ rest"] by simp
qed

lemma node_bytes_stored:
  "length (data (node h a)) < 2 ^ 32 \<Longrightarrow>
   node_bytes (nodeToIndex as) (node h a) = record_bytes (stored h as a)"
  by (simp add: node_bytes_def record_bytes_def stored_def unat_of_nat_small)

lemma encoded_stored:
  "\<forall>a \<in> set as. length (data (node h a)) < 2 ^ 32 \<Longrightarrow>
   encoded h l as = le32 (count l) @ concat (map record_bytes (map (stored h as) as))"
  by (simp add: encoded_def node_bytes_stored comp_def cong: map_cong)

lemma Deserialize_encoded:
  assumes inv: "list_inv (h, l) as"
    and small: "\<forall>a \<in> set as. length (data (node h a)) < 2 ^ 32"
    and len: "length as < 2 ^ 32"
    and clr: "Clear t = Some (h0, l0)"
  shows "Deserialize t (Some (encoded h l as @ rest)) =
           Some ((h0 @ decoded (length h0) (map (stored h as) as),
                  \<lparr>head = (if as = [] then None else Some (length h0)),
                   tail = (if as = [] then None else Some (length h0 + (length as - 1))),
                   count = count l\<rparr>), Inr rest)"
proof -
  let ?recs = "map (stored h as) as"
  from inv have cnt: "count l = word_of_nat (length as)" by (simp add: list_inv_def)
  with len have u: "unat (count l) = length as" by (simp add: unat_of_nat_small)
  have c0: "count l > 0 \<longleftrightarrow> as \<noteq> []" by (simp add: word_gt0_unat u)
  have 1: "readUint32 (encoded h l as @ rest) = Inr (count l, concat (map record_bytes ?recs) @ rest)"
    using readUint32_le32[of "count l" "concat (map record_bytes ?recs) @ rest"]
    by (simp add: encoded_stored[OF small])
  have "\<forall>r \<in> set ?recs. length (fst r) < 2 ^ 32" using small by (simp add: stored_def)
  from read_records_bytes[OF this, of rest]
  have 2: "read_records (unat (count l)) (concat (map record_bytes ?recs) @ rest) = Inr (?recs, rest)"
    by (simp add: u)
  show ?thesis using Deserialize_read_ok[OF clr 1 2] by (simp add: c0 u)
qed

lemma reachable_inv: "reachable s \<Longrightarrow> \<exists>as. list_inv s as"
proof (induction rule: reachable.induct)
  case (new h)
  then show ?case using list_inv_empty by blast
next
  case (AddNode s d s')
  then obtain as where as: "list_inv s as" by blast
  obtain h l where s: "s = (h, l)" by (cases s)
  from AddNode_post[OF as[unfolded s], of d] AddNode.hyps(2) show ?case
    unfolding s by auto
next
  case (SetRand s i j s')
  then obtain as where as: "list_inv s as" by blast
  obtain h l where s: "s = (h, l)" by (cases s)
  show ?case
  proof (cases "sint i < 0 \<or> sint (count l) \<le> sint i \<or> sint j < 0 \<or> sint (count l) \<le> sint j")
    case True
    then have "SetRand i j s = Some s" using SetRand_out_of_range[of i s j] by (simp add: s)
    with SetRand.hyps(2) as show ?thesis by auto
  next
    case False
    with SetRand_in_range[OF as[unfolded s], of i j] SetRand.hyps(2) show ?thesis
      unfolding s by auto
  qed
next
  case (Clear s s')
  then obtain as where as: "list_inv s as" by blast
  obtain h l where s: "s = (h, l)" by (cases s)
  from Clear_list_inv[OF as[unfolded s]] Clear.hyps(2) list_inv_empty show ?case
    unfolding s by auto
next
  case (Deserialize s src s' r)
  then obtain as where as: "list_inv s as" by blast
  obtain h l where s: "s = (h, l)" by (cases s)
  from Deserialize_total[OF Clear_list_inv[OF as[unfolded s]], of src] Deserialize.hyps(2)
  show ?case unfolding s by auto
next
  case (Serialize s out s' w)
  then show ?case using Serialize_frame by blast
qed

lemma le32_minus1: "le32 (- 1) = [255, 255, 255, 255]"
  by (simp add: le32_def unsigned_minus_1_eq_mask mask_eq_exp_minus_1)

lemma rd32_minus1: "rd32 [255, 255, 255, 255] = - 1"
  using rd32_le32[of "- 1"] by (simp only: le32_minus1)

lemma rand_closed:
  "list_inv (h, l) as \<Longrightarrow> a \<in> set as \<Longrightarrow> rand (node h a) = Some r \<Longrightarrow> r \<in> set as"
  by (auto simp: list_inv_def split: option.splits)

lemma list_inv_distinct: "list_inv (h, l) as \<Longrightarrow> distinct as"
  by (auto simp: list_inv_def dest: chain_distinct)

lemma stored_index:
  assumes "list_inv (h, l) as" "a \<in> set as"
  shows "snd (stored h as a) =
           (case rand (node h a) of None \<Rightarrow> - 1 | Some r \<Rightarrow> word_of_nat (index_of as r))"
proof (cases "rand (node h a)")
  case None then show ?thesis by (simp add: stored_def)
next
  case (Some r)
  with rand_closed[OF assms] have "r \<in> set as" by simp
  with Some index_at_nodeToIndex[OF list_inv_distinct[OF assms(1)]] show ?thesis
    by (simp add: stored_def)
qed

lemma encoded_spec:
  assumes "list_inv (h, l) as" "\<forall>a \<in> set as. length (data (node h a)) < 2 ^ 32"
  shows "encoded h l as = spec_encode (view h as)"
proof -
  from assms(1) have cnt: "count l = word_of_nat (length as)" by (simp add: list_inv_def)
  have "\<And>a. a \<in> set as \<Longrightarrow> node_bytes (nodeToIndex as) (node h a) =
          spec_record (data (node h a), map_option (index_of as) (rand (node h a)))"
    subgoal for a
      using stored_index[OF assms(1), of a] assms(2) node_bytes_stored[of h a as]
      by (cases "rand (node h a)") (simp_all add: record_bytes_def spec_record_def stored_def)
    done
  then show ?thesis
    by (simp add: encoded_def spec_encode_def view_def cnt comp_def cong: map_cong)
qed

lemma resolve_minus1: "resolve b n (- 1) = None"
  by (simp add: resolve_def)

lemma resolve_index: "k < n \<Longrightarrow> n < 2 ^ 31 \<Longrightarrow> resolve b n (word_of_nat k) = Some (b + k)"
  by (simp add: resolve_def sint_of_nat_small)

lemma decoded_rand:
  assumes inv: "list_inv (h, l) as" and n: "length as < 2 ^ 31" and a: "a \<in> set as"
  shows "resolve b (length as) (snd (stored h as a)) =
           map_option (\<lambda>r. b + index_of as r) (rand (node h a))"
proof (cases "rand (node h a)")
  case None
  then show ?thesis using stored_index[OF inv a] by (simp add: resolve_minus1)
next
  case (Some r)
  with rand_closed[OF inv a] have "r \<in> set as" by simp
  from index_of_less[OF this] have "index_of as r < length as" by simp
  from resolve_index[OF this n] Some stored_index[OF inv a] show ?thesis by simp
qed

lemma Serialize_written:
  assumes "list_inv (h, l) as" "Serialize (h, l) (Some f) = Some (s', Inr f')"
  shows "written f' = written f @ encoded h l as"
proof (cases "length (encoded h l as) \<le> room f")
  case True
  from Serialize_ok[OF assms(1) True] assms(2) show ?thesis by (auto simp: put_def)
next
  case False
  then have "room f < length (encoded h l as)" by simp
  from Serialize_short[OF assms(1) this] assms(2) show ?thesis by auto
qed

subsection \<open>The concrete lists and streams\<close>

lemma example_reachable: "reachable (example_heap, example_List)"
proof -
  let ?s1 = "([Some \<lparr>prev = None, nxt = None, rand = None, data = [1]\<rparr>],
              \<lparr>head = Some 0, tail = Some 0, count = 1\<rparr>) :: state"
  let ?s2 = "([Some \<lparr>prev = None, nxt = Some 1, rand = None, data = [1]\<rparr>,
               Some \<lparr>prev = Some 0, nxt = None, rand = None, data = [2, 3]\<rparr>],
              \<lparr>head = Some 0, tail = Some 1, count = 2\<rparr>) :: state"
  have 1: "AddNode [1] ([], empty_List) = Some ?s1"
    by (simp add: AddNode_def hnew_def new_ListNode_def empty_List_def)
  have 2: "AddNode [2, 3] ?s1 = Some ?s2"
    by (simp add: AddNode_def hnew_def new_ListNode_def store_def hget_def)
  have 3: "SetRand 0 1 ?s2 = Some (example_heap, example_List)"
    by (simp add: SetRand_def store_def hget_def example_heap_def example_List_def)
  have "reachable ([], empty_List)" by (rule reachable.new)
  then have "reachable ?s1" using 1 by (rule reachable.AddNode)
  then have "reachable ?s2" using 2 by (rule reachable.AddNode)
  then show ?thesis using 3 by (rule reachable.SetRand)
qed

lemma example_small: "\<forall>a \<in> set [0, 1]. length (data (node example_heap a)) < 2 ^ 32"
  by (simp add: node_def hget_def example_heap_def)

lemma example_encoded:
  "spec_encode (view example_heap [0, 1]) =
     [2, 0, 0, 0, 1, 0, 0, 0, 1, 1, 0, 0, 0, 2, 0, 0, 0, 2, 3, 255, 255, 255, 255]"
  by (simp add: spec_encode_def view_def spec_record_def node_def hget_def example_heap_def
       le32_minus1) (simp add: le32_def)

lemma example_sent:
  "encoded example_heap example_List [0, 1] =
     [2, 0, 0, 0, 1, 0, 0, 0, 1, 1, 0, 0, 0, 2, 0, 0, 0, 2, 3, 255, 255, 255, 255]"
proof -
  have i: "index_at (nodeToIndex [0, 1]) 1 = 1"
    using index_at_nodeToIndex[of "[0, 1]" 1] by simp
  note i = i i[unfolded One_nat_def]
  have n: "node example_heap 0 = \<lparr>prev = None, nxt = Some 1, rand = Some 1, data = [1]\<rparr>"
      "node example_heap 1 = \<lparr>prev = Some 0, nxt = None, rand = None, data = [2, 3]\<rparr>"
    by (simp_all add: node_def hget_def example_heap_def)
  have b: "node_bytes (nodeToIndex [0, 1]) (node example_heap 0) = [1, 0, 0, 0, 1, 1, 0, 0, 0]"
      "node_bytes (nodeToIndex [0, 1]) (node example_heap 1) = [2, 0, 0, 0, 2, 3, 255, 255, 255, 255]"
    unfolding n by (simp_all add: node_bytes_def i le32_minus1) (simp_all add: le32_def)
  have c: "le32 (count example_List) = [2, 0, 0, 0]"
    by (simp add: example_List_def le32_def)
  show ?thesis unfolding encoded_def list.map concat.simps b c by simp
qed

lemma example_Serialize:
  "Serialize (example_heap, example_List) (Some \<lparr>written = [], room = 30\<rparr>) =
     Some ((example_heap, example_List),
           Inr \<lparr>written = [2, 0, 0, 0, 1, 0, 0, 0, 1, 1, 0, 0, 0, 2, 0, 0, 0, 2, 3, 255, 255, 255, 255],
                room = 7\<rparr>)"
  using Serialize_ok[OF example_inv, of "\<lparr>written = [], room = 30\<rparr>"] unfolding example_sent
  by (simp add: put_def)

lemma example_truncated:
  "Deserialize (example_heap, example_List) (Some [2, 0, 0, 0, 1, 0, 0, 0]) =
     Some (([None, None, None], empty_List), Inl ErrReadNodeData)"
proof -
  have 1: "readUint32 [2, 0, 0, 0, 1, 0, 0, 0] = Inr (2, [1, 0, 0, 0])"
    by (simp add: readUint32_def fread_def rd32_def)
  have 2: "read_record [1, 0, 0, 0] = Inl ErrReadNodeData"
    by (simp add: read_record_def readUint32_def fread_def rd32_def)
  have 3: "readNodes 2 [None, None] [1, 0, 0, 0] [] [] = ([None, None, None], Inl ErrReadNodeData)"
    by (simp add: numeral_2_eq_2 readNode_eq 2)
  have c: "Clear (example_heap, example_List) = Some ([None, None], empty_List)"
    unfolding Clear_list_inv[OF example_inv] by (simp add: hdelete_def example_heap_def)
  show ?thesis
    by (simp add: Deserialize_def c 1 3)
qed

lemma example_source_read:
  "readUint32 example_source =
     Inr (3, [0, 0, 0, 0, 1, 0, 0, 0, 1, 0, 0, 0, 9, 7, 0, 0, 0, 0, 0, 0, 0, 255, 255, 255, 255])"
  "readNodes (unat (3 :: uint32)) [] [0, 0, 0, 0, 1, 0, 0, 0, 1, 0, 0, 0, 9, 7, 0, 0, 0, 0, 0, 0, 0, 255, 255, 255, 255] [] [] =
     ([Some (new_ListNode\<lparr>data := []\<rparr>), Some (new_ListNode\<lparr>data := [9]\<rparr>), Some (new_ListNode\<lparr>data := []\<rparr>)],
      Inr ([0, 1, 2], [1, 7, - 1], []))"
proof -
  show "readUint32 example_source =
     Inr (3, [0, 0, 0, 0, 1, 0, 0, 0, 1, 0, 0, 0, 9, 7, 0, 0, 0, 0, 0, 0, 0, 255, 255, 255, 255])"
    by (simp add: example_source_def readUint32_def fread_def rd32_def)
  have r1: "read_record [0, 0, 0, 0, 1, 0, 0, 0, 1, 0, 0, 0, 9, 7, 0, 0, 0, 0, 0, 0, 0, 255, 255, 255, 255] =
        Inr (([], 1), [1, 0, 0, 0, 9, 7, 0, 0, 0, 0, 0, 0, 0, 255, 255, 255, 255])"
    by (simp add: read_record_def readUint32_def fread_def rd32_def)
  have r2: "read_record [1, 0, 0, 0, 9, 7, 0, 0, 0, 0, 0, 0, 0, 255, 255, 255, 255] =
        Inr (([9], 7), [0, 0, 0, 0, 255, 255, 255, 255])"
    by (simp add: read_record_def readUint32_def fread_def rd32_def)
  have r3: "read_record [0, 0, 0, 0, 255, 255, 255, 255] = Inr (([], - 1), [])"
    by (simp add: read_record_def readUint32_def fread_def rd32_minus1) (simp add: rd32_def)
  have u: "unat (3 :: uint32) = Suc (Suc (Suc 0))" by simp
  show "readNodes (unat (3 :: uint32)) [] [0, 0, 0, 0, 1, 0, 0, 0, 1, 0, 0, 0, 9, 7, 0, 0, 0, 0, 0, 0, 0, 255, 255, 255, 255] [] [] =
     ([Some (new_ListNode\<lparr>data := []\<rparr>), Some (new_ListNode\<lparr>data := [9]\<rparr>), Some (new_ListNode\<lparr>data := []\<rparr>)],
      Inr ([0, 1, 2], [1, 7, - 1], []))"
    unfolding u by (simp add: readNode_eq r1 r2 r3 fresh_cell_def)
qed

lemma huge_state_inv: "list_inv huge_state [0]"
  by (simp add: list_inv_def huge_state_def hget_def node_def)

lemma long_state_inv: "list_inv long_state [0]"
  by (simp add: list_inv_def long_state_def hget_def node_def)

lemma many_source_eq: "many_source = le32 2147483648 @ concat (map record_bytes many_records)"
  by (simp add: many_source_def many_records_def record_bytes_def le32_minus1) (simp add: le32_def)

lemma Deserialize_many:
  "Deserialize ([], empty_List) (Some many_source) = Some (many_state, Inr [])"
proof -
  have 1: "readUint32 many_source = Inr (2147483648, concat (map record_bytes many_records) @ [])"
    unfolding many_source_eq using readUint32_le32[of 2147483648 "concat (map record_bytes many_records)"]
    by simp
  have u: "unat (2147483648 :: uint32) = length many_records" by (simp add: many_records_def)
  have "\<forall>r \<in> set many_records. length (fst r) < 2 ^ 32" by (simp add: many_records_def)
  from read_records_bytes[OF this, of "[]"]
  have 2: "read_records (unat (2147483648 :: uint32)) (concat (map record_bytes many_records) @ []) =
           Inr (many_records, [])" unfolding u .
  from Deserialize_read_ok[OF Clear_empty 1 2] show ?thesis
    by (simp add: many_state_def)
qed

lemma many_state_inv: "list_inv many_state [0..<2147483648]"
proof -
  have u: "length many_records = unat (2147483648 :: uint32)" by (simp add: many_records_def)
  from decoded_inv[OF u, of "[]"] show ?thesis
    by (simp add: many_state_def) (simp add: many_records_def)
qed

lemma full_source_eq: "full_source = le32 2147483647 @ concat (map record_bytes full_records)"
  by (simp add: full_source_def full_records_def record_bytes_def le32_minus1) (simp add: le32_def)

lemma Deserialize_full:
  "Deserialize ([], empty_List) (Some full_source) = Some (full_state, Inr [])"
proof -
  have 1: "readUint32 full_source = Inr (2147483647, concat (map record_bytes full_records) @ [])"
    unfolding full_source_eq using readUint32_le32[of 2147483647 "concat (map record_bytes full_records)"]
    by simp
  have u: "unat (2147483647 :: uint32) = length full_records" by (simp add: full_records_def)
  have "\<forall>r \<in> set full_records. length (fst r) < 2 ^ 32" by (simp add: full_records_def)
  from read_records_bytes[OF this, of "[]"]
  have 2: "read_records (unat (2147483647 :: uint32)) (concat (map record_bytes full_records) @ []) =
           Inr (full_records, [])" unfolding u .
  from Deserialize_read_ok[OF Clear_empty 1 2] show ?thesis
    by (simp add: full_state_def)
qed

lemma full_state_inv: "list_inv full_state [0..<2147483647]"
proof -
  have u: "length full_records = unat (2147483647 :: uint32)" by (simp add: full_records_def)
  from decoded_inv[OF u, of "[]"] show ?thesis
    by (simp add: full_state_def) (simp add: full_records_def)
qed

section \<open>The claims\<close>

subsection \<open>C1\<close>

text \<open>
  C1 (round trip), as the code has it. Take a well-formed list whose \<^verbatim>\<open>count\<close> is the
  number of its nodes and whose payloads are each shorter than \<open>2\<^sup>3\<^sup>2\<close> bytes, and let
  \<^verbatim>\<open>Serialize\<close> write it to an empty file. Then \<^verbatim>\<open>Deserialize\<close> of the bytes written,
  into any well-formed list, returns without an exception and reads all of them. The decoded list is well-formed
  and has as many nodes and the same \<^verbatim>\<open>count\<close>. At every position the payload is the
  same; the cross-reference is absent if and only if it was absent; it points to the
  node at position \<open>j\<close> if and only if the original pointed to the node at position \<open>j\<close>;
  so the node it points to holds the payload of the node the original pointed to.
  The payloads need not be distinct.
\<close>

theorem round_trip:
  assumes inv: "list_inv (h, l) as" and exact: "sint (count l) = int (length as)"
    and small: "\<forall>a \<in> set as. length (data (node h a)) < 2 ^ 32"
    and t: "list_inv t bs"
    and enc: "Serialize (h, l) (Some f) = Some (s', Inr f')" and w: "written f = []"
  shows "\<exists>h' l' as'. Deserialize t (Some (written f')) = Some ((h', l'), Inr []) \<and>
           list_inv (h', l') as' \<and> length as' = length as \<and>
           count l' = count l \<and> sint (count l') = int (length as) \<and>
           (\<forall>i < length as.
              data (node h' (as' ! i)) = data (node h (as ! i)) \<and>
              (rand (node h' (as' ! i)) = None \<longleftrightarrow> rand (node h (as ! i)) = None) \<and>
              (\<forall>j < length as. rand (node h' (as' ! i)) = Some (as' ! j) \<longleftrightarrow>
                                 rand (node h (as ! i)) = Some (as ! j)) \<and>
              (\<forall>r. rand (node h (as ! i)) = Some r \<longrightarrow>
                   (\<exists>r'. rand (node h' (as' ! i)) = Some r' \<and> data (node h' r') = data (node h r))))"
proof -
  obtain ht lt where tt: "t = (ht, lt)" by (cases t)
  let ?h0 = "fold (\<lambda>a h'. hdelete h' a) bs ht"
  let ?b = "length ?h0" and ?n = "length as"
  let ?recs = "map (stored h as) as"
  let ?h' = "?h0 @ decoded ?b ?recs"
  let ?l' = "\<lparr>head = (if as = [] then None else Some ?b),
              tail = (if as = [] then None else Some (?b + (?n - 1))), count = count l\<rparr>"
  let ?as' = "[?b..<?b + ?n]"
  have n: "length as < 2 ^ 31" using exact by (rule count_exact_bound)
  have dist: "distinct as" using inv by (rule list_inv_distinct)
  have cnt: "count l = word_of_nat ?n" using inv by (simp add: list_inv_def)
  have n32: "?n < 2 ^ 32" using n by simp
  have u: "unat (count l) = ?n" using n32 by (simp add: cnt unat_of_nat_small)
  have c0: "count l > 0 \<longleftrightarrow> as \<noteq> []" by (simp add: word_gt0_unat u)
  have wr: "written f' = encoded h l as @ []" using Serialize_written[OF inv enc] w by simp
  have clr: "Clear t = Some (?h0, empty_List)" using Clear_list_inv[OF t[unfolded tt]] by (simp add: tt)
  have d: "Deserialize t (Some (written f')) = Some ((?h', ?l'), Inr [])"
    unfolding wr using inv small n32 clr by (rule Deserialize_encoded)
  have lr: "length ?recs = unat (count l)" by (simp add: u)
  have leq: "\<lparr>head = (if count l > 0 then Some ?b else None),
              tail = (if count l > 0 then Some (?b + (unat (count l) - 1)) else None),
              count = count l\<rparr> = ?l'"
    by (cases "as = []") (simp_all add: c0 u)
  have inv': "list_inv (?h', ?l') ?as'"
    using decoded_inv[OF lr, of ?h0] unfolding leq by simp
  have nd: "\<And>i. i < ?n \<Longrightarrow> data (node ?h' (?b + i)) = data (node h (as ! i)) \<and>
          rand (node ?h' (?b + i)) = map_option (\<lambda>r. ?b + index_of as r) (rand (node h (as ! i)))"
    subgoal for i
      using node_Some[OF hget_decoded[of i ?recs ?h0]] decoded_rand[OF inv n, of "as ! i" ?b]
      by (simp add: stored_def)
    done
  have pt: "\<forall>i < ?n.
              data (node ?h' (?as' ! i)) = data (node h (as ! i)) \<and>
              (rand (node ?h' (?as' ! i)) = None \<longleftrightarrow> rand (node h (as ! i)) = None) \<and>
              (\<forall>j < ?n. rand (node ?h' (?as' ! i)) = Some (?as' ! j) \<longleftrightarrow>
                                 rand (node h (as ! i)) = Some (as ! j)) \<and>
              (\<forall>r. rand (node h (as ! i)) = Some r \<longrightarrow>
                   (\<exists>r'. rand (node ?h' (?as' ! i)) = Some r' \<and> data (node ?h' r') = data (node h r)))"
  proof (intro allI impI)
    fix i assume i: "i < ?n"
    then have ai: "as ! i \<in> set as" by simp
    have 1: "data (node ?h' (?as' ! i)) = data (node h (as ! i))" using nd[OF i] i by simp
    have r: "rand (node ?h' (?as' ! i)) = map_option (\<lambda>r. ?b + index_of as r) (rand (node h (as ! i)))"
      using nd[OF i] i by simp
    have 2: "rand (node ?h' (?as' ! i)) = None \<longleftrightarrow> rand (node h (as ! i)) = None"
      by (simp add: r)
    have 3: "\<forall>j < ?n. rand (node ?h' (?as' ! i)) = Some (?as' ! j) \<longleftrightarrow>
                                 rand (node h (as ! i)) = Some (as ! j)"
    proof (intro allI impI)
      fix j assume j: "j < ?n"
      show "rand (node ?h' (?as' ! i)) = Some (?as' ! j) \<longleftrightarrow> rand (node h (as ! i)) = Some (as ! j)"
      proof (cases "rand (node h (as ! i))")
        case None then show ?thesis by (simp add: r)
      next
        case (Some x)
        with rand_closed[OF inv ai] have x: "x \<in> set as" by simp
        from index_of_less[OF x] index_of_nth[OF dist j] j
        have "index_of as x = j \<longleftrightarrow> x = as ! j" by auto
        then show ?thesis using j by (simp add: r Some)
      qed
    qed
    have 4: "\<forall>x. rand (node h (as ! i)) = Some x \<longrightarrow>
                   (\<exists>r'. rand (node ?h' (?as' ! i)) = Some r' \<and> data (node ?h' r') = data (node h x))"
    proof (intro allI impI)
      fix x assume x: "rand (node h (as ! i)) = Some x"
      with rand_closed[OF inv ai] have "x \<in> set as" by simp
      from index_of_less[OF this] nd[of "index_of as x"]
      have "data (node ?h' (?b + index_of as x)) = data (node h x)" by simp
      then show "\<exists>r'. rand (node ?h' (?as' ! i)) = Some r' \<and> data (node ?h' r') = data (node h x)"
        by (simp add: r x)
    qed
    from 1 2 3 4 show "data (node ?h' (?as' ! i)) = data (node h (as ! i)) \<and>
              (rand (node ?h' (?as' ! i)) = None \<longleftrightarrow> rand (node h (as ! i)) = None) \<and>
              (\<forall>j < ?n. rand (node ?h' (?as' ! i)) = Some (?as' ! j) \<longleftrightarrow>
                                 rand (node h (as ! i)) = Some (as ! j)) \<and>
              (\<forall>r. rand (node h (as ! i)) = Some r \<longrightarrow>
                   (\<exists>r'. rand (node ?h' (?as' ! i)) = Some r' \<and> data (node ?h' r') = data (node h r)))"
      by (intro conjI)
  qed
  have sc: "sint (count ?l') = int ?n" using n by (simp add: cnt sint_of_nat_small)
  have "Deserialize t (Some (written f')) = Some ((?h', ?l'), Inr []) \<and>
           list_inv (?h', ?l') ?as' \<and> length ?as' = ?n \<and>
           count ?l' = count l \<and> sint (count ?l') = int ?n \<and>
           (\<forall>i < ?n.
              data (node ?h' (?as' ! i)) = data (node h (as ! i)) \<and>
              (rand (node ?h' (?as' ! i)) = None \<longleftrightarrow> rand (node h (as ! i)) = None) \<and>
              (\<forall>j < ?n. rand (node ?h' (?as' ! i)) = Some (?as' ! j) \<longleftrightarrow>
                                 rand (node h (as ! i)) = Some (as ! j)) \<and>
              (\<forall>r. rand (node h (as ! i)) = Some r \<longrightarrow>
                   (\<exists>r'. rand (node ?h' (?as' ! i)) = Some r' \<and> data (node ?h' r') = data (node h r))))"
    using d inv' pt sc by (intro conjI) simp_all
  then show ?thesis by (intro exI)
qed

text \<open>The list of two nodes satisfies the hypotheses, and comes back from its 23 bytes.\<close>

theorem round_trip_witness:
  "list_inv (example_heap, example_List) [0, 1] \<and>
   sint (count example_List) = int (length [0, 1 :: addr]) \<and>
   length (data (node example_heap 0)) < 2 ^ 32 \<and> length (data (node example_heap 1)) < 2 ^ 32 \<and>
   list_inv ([], empty_List) [] \<and>
   Serialize (example_heap, example_List) (Some \<lparr>written = [], room = 30\<rparr>) =
     Some ((example_heap, example_List),
           Inr \<lparr>written = [2, 0, 0, 0, 1, 0, 0, 0, 1, 1, 0, 0, 0, 2, 0, 0, 0, 2, 3, 255, 255, 255, 255],
                room = 7\<rparr>) \<and>
   (\<exists>h' l' as'.
      Deserialize ([], empty_List)
        (Some [2, 0, 0, 0, 1, 0, 0, 0, 1, 1, 0, 0, 0, 2, 0, 0, 0, 2, 3, 255, 255, 255, 255]) =
        Some ((h', l'), Inr []) \<and>
      list_inv (h', l') as' \<and> length as' = 2 \<and> count l' = 2 \<and>
      data (node h' (as' ! 0)) = [1] \<and> data (node h' (as' ! 1)) = [2, 3] \<and>
      rand (node h' (as' ! 0)) = Some (as' ! 1) \<and> rand (node h' (as' ! 1)) = None)"
proof -
  have l: "sint (count example_List) = int (length [0, 1 :: addr])" by (simp add: example_List_def)
  have w: "written \<lparr>written = [], room = 30\<rparr> = []" by simp
  note rt = round_trip[OF example_inv l example_small list_inv_empty[of "[]"] example_Serialize w,
      unfolded wfile.select_convs]
  from rt obtain h' l' as' where d: "Deserialize ([], empty_List)
        (Some [2, 0, 0, 0, 1, 0, 0, 0, 1, 1, 0, 0, 0, 2, 0, 0, 0, 2, 3, 255, 255, 255, 255]) =
        Some ((h', l'), Inr [])"
    and i: "list_inv (h', l') as'" and n0: "length as' = length [0, 1 :: addr]"
    and c: "count l' = count example_List"
    and p: "\<forall>i < length [0, 1 :: addr].
              data (node h' (as' ! i)) = data (node example_heap ([0, 1] ! i)) \<and>
              (rand (node h' (as' ! i)) = None \<longleftrightarrow> rand (node example_heap ([0, 1] ! i)) = None) \<and>
              (\<forall>j < length [0, 1 :: addr]. rand (node h' (as' ! i)) = Some (as' ! j) \<longleftrightarrow>
                                 rand (node example_heap ([0, 1] ! i)) = Some ([0, 1] ! j)) \<and>
              (\<forall>r. rand (node example_heap ([0, 1] ! i)) = Some r \<longrightarrow>
                   (\<exists>r'. rand (node h' (as' ! i)) = Some r' \<and> data (node h' r') = data (node example_heap r)))"
    by blast
  have n: "length as' = 2" using n0 by simp
  have ex: "node example_heap 0 = \<lparr>prev = None, nxt = Some 1, rand = Some 1, data = [1]\<rparr>"
      "node example_heap 1 = \<lparr>prev = Some 0, nxt = None, rand = None, data = [2, 3]\<rparr>"
    by (simp_all add: node_def hget_def example_heap_def)
  note ex = ex ex[unfolded One_nat_def]
  from p[rule_format, of 0] have p0: "data (node h' (as' ! 0)) = [1]"
     "\<forall>j < length [0, 1 :: addr]. rand (node h' (as' ! 0)) = Some (as' ! j) \<longleftrightarrow>
                                 rand (node example_heap 0) = Some ([0, 1] ! j)" by (simp_all add: ex)
  from p0(2)[rule_format, of 1] have r0: "rand (node h' (as' ! 0)) = Some (as' ! 1)" by (simp add: ex)
  from p[rule_format, of 1] have p1: "data (node h' (as' ! 1)) = [2, 3]" "rand (node h' (as' ! 1)) = None"
    by (simp_all add: ex)
  have c2: "count l' = 2" using c by (simp add: example_List_def)
  have s0: "length (data (node example_heap 0)) < 2 ^ 32" "length (data (node example_heap 1)) < 2 ^ 32"
    by (simp_all add: ex)
  have "Deserialize ([], empty_List)
        (Some [2, 0, 0, 0, 1, 0, 0, 0, 1, 1, 0, 0, 0, 2, 0, 0, 0, 2, 3, 255, 255, 255, 255]) =
        Some ((h', l'), Inr []) \<and>
      list_inv (h', l') as' \<and> length as' = 2 \<and> count l' = 2 \<and>
      data (node h' (as' ! 0)) = [1] \<and> data (node h' (as' ! 1)) = [2, 3] \<and>
      rand (node h' (as' ! 0)) = Some (as' ! 1) \<and> rand (node h' (as' ! 1)) = None"
    using d i n c2 p0(1) p1 r0 by (intro conjI)
  then have "\<exists>h' l' as'.
      Deserialize ([], empty_List)
        (Some [2, 0, 0, 0, 1, 0, 0, 0, 1, 1, 0, 0, 0, 2, 0, 0, 0, 2, 3, 255, 255, 255, 255]) =
        Some ((h', l'), Inr []) \<and>
      list_inv (h', l') as' \<and> length as' = 2 \<and> count l' = 2 \<and>
      data (node h' (as' ! 0)) = [1] \<and> data (node h' (as' ! 1)) = [2, 3] \<and>
      rand (node h' (as' ! 0)) = Some (as' ! 1) \<and> rand (node h' (as' ! 1)) = None"
    by (intro exI)
  with example_inv l s0 list_inv_empty example_Serialize show ?thesis by (intro conjI)
qed

text \<open>
  Without the bound on the payloads the round trip fails. The length field holds the
  length modulo \<open>2\<^sup>3\<^sup>2\<close>, and that many bytes are written: a node with a payload of
  \<open>2\<^sup>3\<^sup>2\<close> bytes, appended to the empty list, is written as length 0, no payload and
  index \<open>-1\<close>, and is read back with the empty payload.
\<close>

theorem huge_payload_counterexample:
  "AddNode huge_payload ([], empty_List) = Some huge_state \<and>
   list_inv huge_state [0] \<and> sint (count (snd huge_state)) = int (length [0 :: addr]) \<and>
   length (data (node (fst huge_state) 0)) = 4294967296 \<and>
   Serialize huge_state (Some \<lparr>written = [], room = 5000000000\<rparr>) =
     Some (huge_state, Inr \<lparr>written = [1, 0, 0, 0, 0, 0, 0, 0, 255, 255, 255, 255], room = 4999999988\<rparr>) \<and>
   Deserialize ([], empty_List) (Some [1, 0, 0, 0, 0, 0, 0, 0, 255, 255, 255, 255]) =
     Some (([Some \<lparr>prev = None, nxt = None, rand = None, data = []\<rparr>],
            \<lparr>head = Some 0, tail = Some 0, count = 1\<rparr>), Inr [])"
proof -
  have a: "AddNode huge_payload ([], empty_List) = Some huge_state"
    by (simp add: AddNode_def hnew_def new_ListNode_def empty_List_def huge_state_def)
  have b: "length (data (node (fst huge_state) 0)) = 4294967296"
    by (simp add: huge_state_def node_def hget_def huge_payload_def)
  have i: "list_inv (fst huge_state, snd huge_state) [0]" using huge_state_inv by simp
  have e: "encoded (fst huge_state) (snd huge_state) [0] = [1, 0, 0, 0, 0, 0, 0, 0, 255, 255, 255, 255]"
    by (simp add: encoded_def node_bytes_def huge_state_def huge_payload_def node_def hget_def
          le32_minus1) (simp add: le32_def)
  have s: "Serialize huge_state (Some \<lparr>written = [], room = 5000000000\<rparr>) =
     Some (huge_state, Inr \<lparr>written = [1, 0, 0, 0, 0, 0, 0, 0, 255, 255, 255, 255], room = 4999999988\<rparr>)"
    using Serialize_ok[OF i, of "\<lparr>written = [], room = 5000000000\<rparr>"]
    by (simp add: e put_def)
  have 1: "readUint32 [1, 0, 0, 0, 0, 0, 0, 0, 255, 255, 255, 255] = Inr (1, [0, 0, 0, 0, 255, 255, 255, 255])"
    by (simp add: readUint32_def fread_def rd32_def)
  have 2: "read_records (unat (1 :: uint32)) [0, 0, 0, 0, 255, 255, 255, 255] = Inr ([([], - 1)], [])"
    by (simp add: read_record_def readUint32_def fread_def rd32_minus1) (simp add: rd32_def)
  have d: "Deserialize ([], empty_List) (Some [1, 0, 0, 0, 0, 0, 0, 0, 255, 255, 255, 255]) =
     Some (([Some \<lparr>prev = None, nxt = None, rand = None, data = []\<rparr>],
            \<lparr>head = Some 0, tail = Some 0, count = 1\<rparr>), Inr [])"
    using Deserialize_read_ok[OF Clear_empty 1 2] by (simp add: decoded_def resolve_minus1)
  have c: "sint (count (snd huge_state)) = int (length [0 :: addr])" by (simp add: huge_state_def)
  from a huge_state_inv c b s d show ?thesis by (intro conjI)
qed

subsection \<open>C2\<close>

text \<open>
  C2 (encoder output format), as the code has it. Take a well-formed list whose \<^verbatim>\<open>count\<close>
  is the number of its nodes and whose payloads are each shorter than \<open>2\<^sup>3\<^sup>2\<close> bytes.
  If the sink has room,
  \<^verbatim>\<open>Serialize\<close> appends to it exactly the format of the specification and nothing else:
  the node count, then for each node in traversal order the payload length, the payload
  bytes and the position of the node \<^verbatim>\<open>rand\<close> points to, or \<open>-1\<close>. If the sink has less
  room, \<^verbatim>\<open>Serialize\<close> ends with an exception. The count field and every length field
  hold their number as it is, every \<^verbatim>\<open>rand\<close> of the list points to a
  node of the list, and the index written for it is the position of that node, which
  the signed field holds as it is.
\<close>

theorem encoder_format:
  assumes "list_inv (h, l) as" and "sint (count l) = int (length as)"
    and "\<forall>a \<in> set as. length (data (node h a)) < 2 ^ 32"
  shows "(if length (spec_encode (view h as)) \<le> room f
          then Serialize (h, l) (Some f) =
                 Some ((h, l), Inr (f\<lparr>written := written f @ spec_encode (view h as),
                                     room := room f - length (spec_encode (view h as))\<rparr>))
          else \<exists>e. Serialize (h, l) (Some f) = Some ((h, l), Inl e)) \<and>
         unat (word_of_nat (length as) :: uint32) = length as \<and>
         (\<forall>a \<in> set as.
            unat (word_of_nat (length (data (node h a))) :: uint32) = length (data (node h a)) \<and>
            (\<forall>r. rand (node h a) = Some r \<longrightarrow>
                  r \<in> set as \<and> as ! index_of as r = r \<and>
                  sint (word_of_nat (index_of as r) :: int32) = int (index_of as r)))"
proof -
  have n: "length as < 2 ^ 31" using assms(2) by (rule count_exact_bound)
  have e: "encoded h l as = spec_encode (view h as)" using assms(1,3) by (rule encoded_spec)
  have 1: "if length (spec_encode (view h as)) \<le> room f
          then Serialize (h, l) (Some f) =
                 Some ((h, l), Inr (f\<lparr>written := written f @ spec_encode (view h as),
                                     room := room f - length (spec_encode (view h as))\<rparr>))
          else \<exists>e. Serialize (h, l) (Some f) = Some ((h, l), Inl e)"
    using Serialize_ok[OF assms(1), of f] Serialize_short[OF assms(1), of f]
    by (auto simp: e put_def)
  have 2: "unat (word_of_nat (length as) :: uint32) = length as"
    using n by (simp add: unat_of_nat_small)
  have 3: "\<forall>a \<in> set as.
            unat (word_of_nat (length (data (node h a))) :: uint32) = length (data (node h a)) \<and>
            (\<forall>r. rand (node h a) = Some r \<longrightarrow>
                  r \<in> set as \<and> as ! index_of as r = r \<and>
                  sint (word_of_nat (index_of as r) :: int32) = int (index_of as r))"
  proof (intro ballI conjI allI impI)
    fix a assume a: "a \<in> set as"
    show "unat (word_of_nat (length (data (node h a))) :: uint32) = length (data (node h a))"
      using assms(3) a by (simp add: unat_of_nat_small)
    fix r assume r: "rand (node h a) = Some r"
    show rin: "r \<in> set as" using assms(1) a r by (rule rand_closed)
    from index_of_less[OF rin] show "as ! index_of as r = r" by simp
    from index_of_less[OF rin] n have "index_of as r < 2 ^ 31" by simp
    then show "sint (word_of_nat (index_of as r) :: int32) = int (index_of as r)"
      by (rule sint_of_nat_small)
  qed
  from 1 2 3 show ?thesis by (intro conjI)
qed

text \<open>The list of two nodes: 23 bytes with room for 30, an exception with room for 10.\<close>

theorem encoder_format_witness:
  "list_inv (example_heap, example_List) [0, 1] \<and>
   sint (count example_List) = int (length [0, 1 :: addr]) \<and>
   Serialize (example_heap, example_List) (Some \<lparr>written = [], room = 30\<rparr>) =
     Some ((example_heap, example_List),
           Inr \<lparr>written = [2, 0, 0, 0, 1, 0, 0, 0, 1, 1, 0, 0, 0, 2, 0, 0, 0, 2, 3, 255, 255, 255, 255],
                room = 7\<rparr>) \<and>
   (\<exists>e. Serialize (example_heap, example_List) (Some \<lparr>written = [], room = 10\<rparr>) =
     Some ((example_heap, example_List), Inl e))"
proof -
  have s: "\<forall>a \<in> set [0, 1]. length (data (node example_heap a)) < 2 ^ 32"
    by (simp add: node_def hget_def example_heap_def)
  have l: "sint (count example_List) = int (length [0, 1 :: addr])" by (simp add: example_List_def)
  have a: "Serialize (example_heap, example_List) (Some \<lparr>written = [], room = 30\<rparr>) =
     Some ((example_heap, example_List),
           Inr \<lparr>written = [2, 0, 0, 0, 1, 0, 0, 0, 1, 1, 0, 0, 0, 2, 0, 0, 0, 2, 3, 255, 255, 255, 255],
                room = 7\<rparr>)"
    using encoder_format[OF example_inv l s, of "\<lparr>written = [], room = 30\<rparr>", THEN conjunct1]
    unfolding example_encoded by simp
  have b: "\<exists>e. Serialize (example_heap, example_List) (Some \<lparr>written = [], room = 10\<rparr>) =
     Some ((example_heap, example_List), Inl e)"
    using encoder_format[OF example_inv l s, of "\<lparr>written = [], room = 10\<rparr>", THEN conjunct1]
    unfolding example_encoded by simp
  from example_inv l a b show ?thesis by (intro conjI)
qed

text \<open>
  Without the bound on the payload the output is not the format of the specification:
  for a payload of \<open>2\<^sup>3\<^sup>2 + 1\<close> bytes \<^verbatim>\<open>Serialize\<close> writes the length 1 and one payload
  byte, 13 bytes in all, where the format has all the payload bytes.
\<close>

theorem long_payload_counterexample:
  "list_inv long_state [0] \<and> sint (count (snd long_state)) = int (length [0 :: addr]) \<and>
   Serialize long_state (Some \<lparr>written = [], room = 5000000000\<rparr>) =
     Some (long_state,
           Inr \<lparr>written = [1, 0, 0, 0, 1, 0, 0, 0, 7, 255, 255, 255, 255], room = 4999999987\<rparr>) \<and>
   spec_encode (view (fst long_state) [0]) =
     [1, 0, 0, 0] @ [1, 0, 0, 0] @ replicate 4294967297 7 @ [255, 255, 255, 255] \<and>
   spec_encode (view (fst long_state) [0]) \<noteq> [1, 0, 0, 0, 1, 0, 0, 0, 7, 255, 255, 255, 255]"
proof -
  have i: "list_inv (fst long_state, snd long_state) [0]" using long_state_inv by simp
  have e: "encoded (fst long_state) (snd long_state) [0] = [1, 0, 0, 0, 1, 0, 0, 0, 7, 255, 255, 255, 255]"
    by (simp add: encoded_def node_bytes_def long_state_def long_payload_def node_def hget_def
          le32_minus1) (simp add: le32_def)
  have s: "Serialize long_state (Some \<lparr>written = [], room = 5000000000\<rparr>) =
     Some (long_state,
           Inr \<lparr>written = [1, 0, 0, 0, 1, 0, 0, 0, 7, 255, 255, 255, 255], room = 4999999987\<rparr>)"
    using Serialize_ok[OF i, of "\<lparr>written = [], room = 5000000000\<rparr>"]
    by (simp add: e put_def)
  have v: "spec_encode (view (fst long_state) [0]) =
     [1, 0, 0, 0] @ [1, 0, 0, 0] @ replicate 4294967297 7 @ [255, 255, 255, 255]"
    by (simp add: spec_encode_def view_def spec_record_def long_state_def long_payload_def node_def hget_def
          le32_minus1) (simp add: le32_def)
  have "length (spec_encode (view (fst long_state) [0])) \<noteq>
        length [1, 0, 0, 0, 1, 0, 0, 0, 7, 255, 255, 255, 255 :: byte]"
    unfolding v by simp
  then have n: "spec_encode (view (fst long_state) [0]) \<noteq> [1, 0, 0, 0, 1, 0, 0, 0, 7, 255, 255, 255, 255]"
    by metis
  have c: "sint (count (snd long_state)) = int (length [0 :: addr])" by (simp add: long_state_def)
  from long_state_inv c s v n show ?thesis by (intro conjI)
qed

subsection \<open>C3\<close>

text \<open>
  C3 (lenient resolution of stored indices). Let \<^verbatim>\<open>Deserialize\<close> have cleared the list,
  read the count \<open>n\<close> and read \<open>n\<close> records into the nodes \<open>rawNodes\<close> with the stored
  indices \<open>randIndices\<close>. Then, whatever the stored indices are, \<^verbatim>\<open>Deserialize\<close> returns
  without an exception, the list is well-formed with the nodes \<open>rawNodes\<close>, and the
  \<^verbatim>\<open>rand\<close> of the node at position \<open>i\<close> is the node at position \<open>randIndices ! i\<close> if this
  index is in \<open>[0, n)\<close>, and null if it is \<open>-1\<close> or any other value outside \<open>[0, n)\<close>.
\<close>

theorem lenient_resolution:
  assumes "Clear s = Some (h0, l0)"
    and "readUint32 f = Inr (newCount, f1)"
    and "readNodes (unat newCount) h0 f1 [] [] = (h1, Inr (rawNodes, randIndices, f2))"
  shows "\<exists>h' l'. Deserialize s (Some f) = Some ((h', l'), Inr f2) \<and>
           list_inv (h', l') rawNodes \<and>
           length rawNodes = unat newCount \<and> length randIndices = unat newCount \<and>
           (\<forall>i < unat newCount.
              rand (node h' (rawNodes ! i)) =
                (if 0 \<le> sint (randIndices ! i) \<and> nat (sint (randIndices ! i)) < unat newCount
                 then Some (rawNodes ! nat (sint (randIndices ! i))) else None))"
proof -
  let ?n = "unat newCount" and ?b = "length h0"
  obtain recs where recs: "read_records ?n f1 = Inr (recs, f2)"
    and raw: "rawNodes = [?b..<?b + ?n]" and idx: "randIndices = map snd recs"
  proof (cases "read_records ?n f1")
    case (Inl e)
    from readNodes_fail[OF this, of h0 "[]" "[]"] assms(3) show ?thesis by simp
  next
    case (Inr p)
    obtain recs f2' where p: "p = (recs, f2')" by (cases p)
    from readNodes_ok[OF Inr[unfolded p], of h0 "[]" "[]"] assms(3) Inr p that show ?thesis
      by simp
  qed
  have n: "length recs = ?n" using recs by (rule read_records_length)
  let ?h' = "h0 @ decoded ?b recs"
  let ?l' = "\<lparr>head = (if newCount > 0 then Some ?b else None),
             tail = (if newCount > 0 then Some (?b + (?n - 1)) else None),
             count = newCount\<rparr>"
  have d: "Deserialize s (Some f) = Some ((?h', ?l'), Inr f2)"
    using assms(1,2) recs by (rule Deserialize_read_ok)
  have inv: "list_inv (?h', ?l') rawNodes"
    using decoded_inv[OF n, of h0] by (simp add: raw n)
  have rd: "\<forall>i < ?n. rand (node ?h' (rawNodes ! i)) =
                (if 0 \<le> sint (randIndices ! i) \<and> nat (sint (randIndices ! i)) < ?n
                 then Some (rawNodes ! nat (sint (randIndices ! i))) else None)"
  proof (intro allI impI)
    fix i assume i: "i < ?n"
    then have "node ?h' (?b + i) = \<lparr>prev = (if i > 0 then Some (?b + (i - 1)) else None),
        nxt = (if i < length recs - 1 then Some (?b + (i + 1)) else None),
        rand = resolve ?b (length recs) (snd (recs ! i)),
        data = fst (recs ! i)\<rparr>"
      using hget_decoded[of i recs h0] by (simp add: node_def n)
    then show "rand (node ?h' (rawNodes ! i)) =
                (if 0 \<le> sint (randIndices ! i) \<and> nat (sint (randIndices ! i)) < ?n
                 then Some (rawNodes ! nat (sint (randIndices ! i))) else None)"
      using i n by (auto simp: raw idx resolve_def)
  qed
  have "Deserialize s (Some f) = Some ((?h', ?l'), Inr f2) \<and>
           list_inv (?h', ?l') rawNodes \<and>
           length rawNodes = ?n \<and> length randIndices = ?n \<and>
           (\<forall>i < ?n. rand (node ?h' (rawNodes ! i)) =
                (if 0 \<le> sint (randIndices ! i) \<and> nat (sint (randIndices ! i)) < ?n
                 then Some (rawNodes ! nat (sint (randIndices ! i))) else None))"
    using d inv rd by (simp add: raw idx n)
  then show ?thesis by (intro exI)
qed

text \<open>Three records with the indices 1, 7 and \<open>-1\<close>: the first resolves, the others are null.\<close>

theorem lenient_resolution_witness:
  "Clear ([], empty_List) = Some ([], empty_List) \<and>
   readUint32 example_source =
     Inr (3, [0, 0, 0, 0, 1, 0, 0, 0, 1, 0, 0, 0, 9, 7, 0, 0, 0, 0, 0, 0, 0, 255, 255, 255, 255]) \<and>
   readNodes (unat (3 :: uint32)) [] [0, 0, 0, 0, 1, 0, 0, 0, 1, 0, 0, 0, 9, 7, 0, 0, 0, 0, 0, 0, 0, 255, 255, 255, 255] [] [] =
     ([Some (new_ListNode\<lparr>data := []\<rparr>), Some (new_ListNode\<lparr>data := [9]\<rparr>), Some (new_ListNode\<lparr>data := []\<rparr>)],
      Inr ([0, 1, 2], [1, 7, - 1], [])) \<and>
   (\<exists>h' l'. Deserialize ([], empty_List) (Some example_source) = Some ((h', l'), Inr []) \<and>
      list_inv (h', l') [0, 1, 2] \<and>
      rand (node h' 0) = Some 1 \<and> rand (node h' 1) = None \<and> rand (node h' 2) = None)"
proof -
  from lenient_resolution[OF Clear_empty example_source_read]
  obtain h' l' where d: "Deserialize ([], empty_List) (Some example_source) = Some ((h', l'), Inr [])"
    and inv: "list_inv (h', l') [0, 1, 2]"
    and r: "\<forall>i < unat (3 :: uint32). rand (node h' ([0, 1, 2] ! i)) =
                (if 0 \<le> sint ([1, 7, - 1 :: int32] ! i) \<and> nat (sint ([1, 7, - 1 :: int32] ! i)) < unat (3 :: uint32)
                 then Some ([0, 1, 2] ! nat (sint ([1, 7, - 1 :: int32] ! i))) else None)"
    by blast
  from r[rule_format, of 0] r[rule_format, of 1] r[rule_format, of 2]
  have "rand (node h' 0) = Some 1 \<and> rand (node h' 1) = None \<and> rand (node h' 2) = None"
    by simp
  with d inv Clear_empty example_source_read show ?thesis by blast
qed

subsection \<open>C4\<close>

text \<open>
  C4. On a well-formed list with the nodes \<open>as\<close>, \<^verbatim>\<open>SetRand(i, j)\<close> always returns. If
  \<open>i\<close> or \<open>j\<close> is outside \<open>[0, count)\<close> the whole state (every node, \<^verbatim>\<open>head\<close>, \<^verbatim>\<open>tail\<close>,
  \<^verbatim>\<open>count\<close>) is as before. If both are inside, both are positions of the chain, the only
  cell of the store that changes is the one of node \<open>i\<close>, and there only \<^verbatim>\<open>rand\<close>, which
  becomes the node at position \<open>j\<close>; the list stays well-formed with the same nodes.
\<close>

theorem SetRand_lenient:
  assumes "list_inv (h, l) as"
  shows "if sint i < 0 \<or> sint (count l) \<le> sint i \<or> sint j < 0 \<or> sint (count l) \<le> sint j
         then SetRand i j (h, l) = Some (h, l)
         else nat (sint i) < length as \<and> nat (sint j) < length as \<and>
              SetRand i j (h, l) =
                Some (h[as ! nat (sint i) :=
                          Some ((node h (as ! nat (sint i)))\<lparr>rand := Some (as ! nat (sint j))\<rparr>)], l) \<and>
              list_inv (h[as ! nat (sint i) :=
                          Some ((node h (as ! nat (sint i)))\<lparr>rand := Some (as ! nat (sint j))\<rparr>)], l) as"
proof (cases "sint i < 0 \<or> sint (count l) \<le> sint i \<or> sint j < 0 \<or> sint (count l) \<le> sint j")
  case True
  then show ?thesis using SetRand_out_of_range[of i "(h, l)" j] by simp
next
  case False
  then show ?thesis using SetRand_in_range[OF assms, of i j] by simp
qed

theorem SetRand_lenient_witness:
  "list_inv (example_heap, example_List) [0, 1] \<and>
   SetRand 5 0 (example_heap, example_List) = Some (example_heap, example_List) \<and>
   SetRand 1 (- 1) (example_heap, example_List) = Some (example_heap, example_List) \<and>
   SetRand 1 0 (example_heap, example_List) =
     Some (example_heap[1 := Some ((node example_heap 1)\<lparr>rand := Some 0\<rparr>)], example_List)"
  using example_inv
    SetRand_lenient[OF example_inv, of 5 0]
    SetRand_lenient[OF example_inv, of 1 "- 1"]
    SetRand_lenient[OF example_inv, of 1 0]
  by (simp add: example_List_def)

subsection \<open>C5\<close>

text \<open>
  C5 (empty-list round trip). \<^verbatim>\<open>Serialize\<close> of an empty list to an empty file with room
  for four bytes writes the four bytes of the count 0, and \<^verbatim>\<open>Deserialize\<close> of these
  bytes, into any well-formed list, returns without an exception and leaves the empty
  list: \<^verbatim>\<open>count\<close> 0, \<^verbatim>\<open>head\<close> and \<^verbatim>\<open>tail\<close> null.
\<close>

theorem empty_round_trip:
  assumes "4 \<le> room f" and "written f = []" and "list_inv t bs"
  shows "\<exists>f' h'. Serialize (h, empty_List) (Some f) = Some ((h, empty_List), Inr f') \<and>
           written f' = [0, 0, 0, 0] \<and>
           Deserialize t (Some (written f')) = Some ((h', empty_List), Inr []) \<and>
           head empty_List = None \<and> tail empty_List = None \<and> count empty_List = 0"
proof -
  obtain ht lt where t: "t = (ht, lt)" by (cases t)
  have e: "encoded h empty_List [] = [0, 0, 0, 0]" by (simp add: encoded_def empty_List_def le32_def)
  have s: "Serialize (h, empty_List) (Some f) = Some ((h, empty_List), Inr (put [0, 0, 0, 0] f))"
    using Serialize_ok[OF list_inv_empty, of h f] assms(1) by (simp add: e)
  have w: "written (put [0, 0, 0, 0] f) = [0, 0, 0, 0]" by (simp add: put_def assms(2))
  let ?h0 = "fold (\<lambda>a h'. hdelete h' a) bs ht"
  have c: "Clear t = Some (?h0, empty_List)" using Clear_list_inv[OF assms(3)[unfolded t]] by (simp add: t)
  have "Deserialize t (Some (encoded h empty_List [] @ [])) = Some ((?h0, empty_List), Inr [])"
    using Deserialize_encoded[OF list_inv_empty _ _ c, of h "[]"] 
    by (simp add: decoded_def empty_List_def)
  then have d: "Deserialize t (Some (written (put [0, 0, 0, 0] f))) = Some ((?h0, empty_List), Inr [])"
    by (simp add: e w)
  have "Serialize (h, empty_List) (Some f) = Some ((h, empty_List), Inr (put [0, 0, 0, 0] f)) \<and>
           written (put [0, 0, 0, 0] f) = [0, 0, 0, 0] \<and>
           Deserialize t (Some (written (put [0, 0, 0, 0] f))) = Some ((?h0, empty_List), Inr []) \<and>
           head empty_List = None \<and> tail empty_List = None \<and> count empty_List = 0"
    using s w d by (simp add: empty_List_def)
  then show ?thesis by (intro exI)
qed

text \<open>Decoding the empty list into the list of two nodes.\<close>

theorem empty_round_trip_witness:
  "4 \<le> room \<lparr>written = [], room = 4\<rparr> \<and> written \<lparr>written = [], room = 4\<rparr> = [] \<and>
   list_inv (example_heap, example_List) [0, 1] \<and>
   (\<exists>f' h'. Serialize ([], empty_List) (Some \<lparr>written = [], room = 4\<rparr>) = Some (([], empty_List), Inr f') \<and>
           written f' = [0, 0, 0, 0] \<and>
           Deserialize (example_heap, example_List) (Some (written f')) = Some ((h', empty_List), Inr []) \<and>
           head empty_List = None \<and> tail empty_List = None \<and> count empty_List = 0)"
  using example_inv empty_round_trip[OF _ _ example_inv, of "\<lparr>written = [], room = 4\<rparr>" "[]"]
  by simp

subsection \<open>C6\<close>

text \<open>
  C6 (append), as the code has it. \<^verbatim>\<open>AddNode\<close> on a well-formed list with the nodes \<open>as\<close>
  always returns (memory is unbounded here: the failure of \<^verbatim>\<open>new\<close> is left out). It
  allocates one node \<open>a\<close> that was not in use, the chain becomes \<open>as @ [a]\<close> with \<open>a\<close> as
  the tail (and as the head when the list was empty), the new node holds the payload and
  no cross-reference, and every old node keeps its position, payload and
  cross-reference. \<^verbatim>\<open>count\<close> becomes \<^verbatim>\<open>count + 1\<close> in 32-bit arithmetic: its value is
  incremented by exactly 1 whenever it is below the largest \<^verbatim>\<open>int\<close>.
\<close>

theorem AddNode_appends:
  assumes "list_inv (h, l) as"
  shows "\<exists>h' l' a. AddNode d (h, l) = Some (h', l') \<and>
           a \<notin> set as \<and> hget h a = None \<and>
           list_inv (h', l') (as @ [a]) \<and> tail l' = Some a \<and> (as = [] \<longrightarrow> head l' = Some a) \<and>
           data (node h' a) = d \<and> rand (node h' a) = None \<and>
           (\<forall>b \<in> set as. data (node h' b) = data (node h b) \<and> rand (node h' b) = rand (node h b)) \<and>
           count l' = count l + 1 \<and>
           (sint (count l) < 2147483647 \<longrightarrow> sint (count l') = sint (count l) + 1)"
proof -
  have step: "sint (count l) < 2147483647 \<longrightarrow> sint (count l + 1) = sint (count l) + 1"
    using sint_succ[of "count l"] by simp
  from AddNode_post[OF assms, of d] obtain h' l' a where r:
    "AddNode d (h, l) = Some (h', l')" "a \<notin> set as" "hget h a = None"
    "list_inv (h', l') (as @ [a])" "node h' a = \<lparr>prev = tail l, nxt = None, rand = None, data = d\<rparr>"
    "\<forall>b \<in> set as. data (node h' b) = data (node h b) \<and> rand (node h' b) = rand (node h b)"
    "count l' = count l + 1" by blast
  from r(4) have "tail l' = Some a" "as = [] \<longrightarrow> head l' = Some a"
    by (auto simp: list_inv_def)
  with r step show ?thesis by auto
qed

text \<open>The list of two nodes: its count 2 becomes 3.\<close>

theorem AddNode_appends_witness:
  "list_inv (example_heap, example_List) [0, 1] \<and> sint (count example_List) < 2147483647 \<and>
   (\<exists>h' l' a. AddNode [7] (example_heap, example_List) = Some (h', l') \<and>
           a \<notin> set [0, 1] \<and> hget example_heap a = None \<and>
           list_inv (h', l') ([0, 1] @ [a]) \<and> tail l' = Some a \<and>
           data (node h' a) = [7] \<and> rand (node h' a) = None \<and>
           (\<forall>b \<in> set [0, 1]. data (node h' b) = data (node example_heap b) \<and>
                               rand (node h' b) = rand (node example_heap b)) \<and>
           count l' = count example_List + 1 \<and>
           sint (count l') = sint (count example_List) + 1)"
proof -
  have c: "sint (count example_List) < 2147483647" by (simp add: example_List_def)
  from AddNode_appends[OF example_inv, of "[7]"] c
  have "\<exists>h' l' a. AddNode [7] (example_heap, example_List) = Some (h', l') \<and>
           a \<notin> set [0, 1] \<and> hget example_heap a = None \<and>
           list_inv (h', l') ([0, 1] @ [a]) \<and> tail l' = Some a \<and>
           data (node h' a) = [7] \<and> rand (node h' a) = None \<and>
           (\<forall>b \<in> set [0, 1]. data (node h' b) = data (node example_heap b) \<and>
                               rand (node h' b) = rand (node example_heap b)) \<and>
           count l' = count example_List + 1 \<and>
           sint (count l') = sint (count example_List) + 1"
    by blast
  with example_inv c show ?thesis by (intro conjI)
qed

text \<open>
  At the largest \<^verbatim>\<open>int\<close> the count is not incremented by 1. \<^verbatim>\<open>Deserialize\<close> of a stream
  of \<open>2\<^sup>3\<^sup>1 - 1\<close> records builds a list of that many nodes with the count
  \<open>2\<^sup>3\<^sup>1 - 1\<close>; \<^verbatim>\<open>AddNode\<close> on it returns, and the count then reads \<open>-2\<^sup>3\<^sup>1\<close>.
\<close>

theorem count_wraps_counterexample:
  "Deserialize ([], empty_List) (Some full_source) = Some (full_state, Inr []) \<and>
   reachable full_state \<and>
   list_inv full_state [0..<2147483647] \<and>
   length [0..<2147483647] = 2147483647 \<and>
   sint (count (snd full_state)) = 2147483647 \<and>
   map_option (sint \<circ> count \<circ> snd) (AddNode [] full_state) = Some (- 2147483648)"
proof -
  have r0: "reachable ([], empty_List)" by (rule reachable.new)
  have r: "reachable full_state" using r0 Deserialize_full by (rule reachable.Deserialize)
  have i: "list_inv (fst full_state, snd full_state) [0..<2147483647]"
    using full_state_inv by simp
  have l: "length [0..<2147483647] = 2147483647" by simp
  have c: "sint (count (snd full_state)) = 2147483647" by (simp add: full_state_def)
  have cw: "count (snd full_state) = 2147483647" by (simp add: full_state_def)
  from AddNode_post[OF i, of "[]"] obtain h' l' a
    where a: "AddNode [] full_state = Some (h', l')" and n: "count l' = count (snd full_state) + 1"
    by auto
  have "sint (count l') = - 2147483648" unfolding n cw by simp
  with a have m: "map_option (sint \<circ> count \<circ> snd) (AddNode [] full_state) = Some (- 2147483648)"
    by simp
  from Deserialize_full r full_state_inv l c m show ?thesis by (intro conjI)
qed

subsection \<open>C7\<close>

text \<open>
  C7 (chain consistency), as the code has it. In every state the public operations
  reach from an empty list, the nodes met by following \<^verbatim>\<open>next\<close> from \<^verbatim>\<open>head\<close> are a
  finite list \<open>as\<close> that ends with \<^verbatim>\<open>nullptr\<close>, no node is met twice, the traversal loop
  of \<^verbatim>\<open>Serialize\<close> returns exactly \<open>as\<close>, and \<^verbatim>\<open>tail\<close> is the last node of \<open>as\<close> (null
  when there is none). The 32-bit \<^verbatim>\<open>count\<close> holds the number of nodes modulo \<open>2\<^sup>3\<^sup>2\<close>:
  it is the number of nodes whenever there are fewer than \<open>2\<^sup>3\<^sup>1\<close> of them.
\<close>

theorem chain_consistency:
  assumes "reachable s"
  shows "\<exists>as. chain (fst s) (head (snd s)) as \<and> distinct as \<and>
              collect (fst s) (head (snd s)) [] = Some as \<and>
              tail (snd s) = (if as = [] then None else Some (last as)) \<and>
              count (snd s) = word_of_nat (length as) \<and>
              (length as < 2 ^ 31 \<longrightarrow> sint (count (snd s)) = int (length as))"
proof -
  from reachable_inv[OF assms] obtain as where inv: "list_inv s as" by blast
  obtain h l where s: "s = (h, l)" by (cases s)
  from inv have ch: "chain h (head l) as" and tl: "tail l = (if as = [] then None else Some (last as))"
    and cnt: "count l = word_of_nat (length as)" by (auto simp: s list_inv_def)
  have "chain (fst s) (head (snd s)) as \<and> distinct as \<and>
        collect (fst s) (head (snd s)) [] = Some as \<and>
        tail (snd s) = (if as = [] then None else Some (last as)) \<and>
        count (snd s) = word_of_nat (length as) \<and>
        (length as < 2 ^ 31 \<longrightarrow> sint (count (snd s)) = int (length as))"
    using ch tl cnt chain_distinct[OF ch] collect_chain[OF ch, of "[]"] sint_of_nat_small[of "length as"]
    by (simp add: s)
  then show ?thesis by (rule exI)
qed

text \<open>The list of two nodes is reached by two appends and one cross assignment.\<close>

theorem chain_consistency_witness:
  "reachable (example_heap, example_List) \<and>
   (\<exists>as. chain example_heap (head example_List) as \<and> distinct as \<and>
              collect example_heap (head example_List) [] = Some as \<and>
              tail example_List = (if as = [] then None else Some (last as)) \<and>
              count example_List = word_of_nat (length as) \<and>
              (length as < 2 ^ 31 \<longrightarrow> sint (count example_List) = int (length as)))"
  using example_reachable chain_consistency[OF example_reachable] by simp

text \<open>
  From \<open>2\<^sup>3\<^sup>1\<close> nodes on, \<^verbatim>\<open>count\<close> is not the number of nodes: \<^verbatim>\<open>Deserialize\<close> of a
  stream of \<open>2\<^sup>3\<^sup>1\<close> records builds a chain of \<open>2\<^sup>3\<^sup>1\<close> nodes and stores the count field
  in an \<^verbatim>\<open>int\<close>, where it reads \<open>-2\<^sup>3\<^sup>1\<close>.
\<close>

theorem count_overflow_counterexample:
  "reachable ([], empty_List) \<and>
   Deserialize ([], empty_List) (Some many_source) = Some (many_state, Inr []) \<and>
   reachable many_state \<and>
   collect (fst many_state) (head (snd many_state)) [] = Some [0..<2147483648] \<and>
   length [0..<2147483648] = 2147483648 \<and>
   sint (count (snd many_state)) = - 2147483648"
proof -
  have r0: "reachable ([], empty_List)" by (rule reachable.new)
  have r: "reachable many_state" using r0 Deserialize_many by (rule reachable.Deserialize)
  have "list_inv (decoded 0 many_records, \<lparr>head = Some 0, tail = Some 2147483647, count = 2147483648\<rparr>)
          [0..<2147483648]"
    using many_state_inv unfolding many_state_def .
  then have "chain (decoded 0 many_records) (Some 0) [0..<2147483648]"
    unfolding list_inv_def by simp
  from collect_chain[OF this, of "[]"]
  have c: "collect (fst many_state) (head (snd many_state)) [] = Some [0..<2147483648]"
    by (simp add: many_state_def)
  have l: "length [0..<2147483648] = 2147483648" by simp
  have v: "sint (count (snd many_state)) = - 2147483648" by (simp add: many_state_def)
  from r0 r Deserialize_many c l v show ?thesis by (intro conjI)
qed

subsection \<open>C8\<close>

text \<open>
  C8. \<^verbatim>\<open>Clear\<close> on a well-formed list always returns; it frees every node of the list
  and leaves \<^verbatim>\<open>head\<close> and \<^verbatim>\<open>tail\<close> null and \<^verbatim>\<open>count\<close> 0. A second \<^verbatim>\<open>Clear\<close> returns
  too and changes nothing.
\<close>

theorem Clear_idempotent:
  assumes "list_inv (h, l) as"
  shows "\<exists>h'. Clear (h, l) = Some (h', empty_List) \<and>
              (\<forall>a \<in> set as. hget h' a = None) \<and>
              head empty_List = None \<and> tail empty_List = None \<and> count empty_List = 0 \<and>
              Clear (h', empty_List) = Some (h', empty_List)"
  using Clear_list_inv[OF assms] Clear_empty
  by (simp add: hget_fold_hdelete empty_List_def)

theorem Clear_idempotent_witness:
  "list_inv (example_heap, example_List) [0, 1] \<and>
   (\<exists>h'. Clear (example_heap, example_List) = Some (h', empty_List) \<and>
              (\<forall>a \<in> set [0, 1]. hget h' a = None) \<and>
              head empty_List = None \<and> tail empty_List = None \<and> count empty_List = 0 \<and>
              Clear (h', empty_List) = Some (h', empty_List))"
  using example_inv Clear_idempotent[OF example_inv] by simp

subsection \<open>C9\<close>

text \<open>
  C9 (a failed decode leaves the list empty). \<^verbatim>\<open>Deserialize\<close> on a well-formed list
  always returns, whatever the source. When it ends with an exception (no source, or a
  short read of the count, of a payload length, of payload bytes or of a stored index),
  the list is left with \<^verbatim>\<open>head\<close> and \<^verbatim>\<open>tail\<close> null and \<^verbatim>\<open>count\<close> 0.
\<close>

theorem Deserialize_failure_leaves_empty:
  assumes "list_inv (h, l) as"
  shows "\<exists>h' l' r. Deserialize (h, l) src = Some ((h', l'), r) \<and>
           (case r of
              Inl e \<Rightarrow> head l' = None \<and> tail l' = None \<and> count l' = 0
            | Inr rest \<Rightarrow> True)"
proof -
  from Deserialize_total[OF Clear_list_inv[OF assms], of src]
  obtain s' r where d: "Deserialize (h, l) src = Some (s', r)" by blast
  obtain h' l' where s': "s' = (h', l')" by (cases s')
  have "case r of Inl e \<Rightarrow> head l' = None \<and> tail l' = None \<and> count l' = 0 | Inr rest \<Rightarrow> True"
  proof (cases r)
    case (Inl e)
    with Deserialize_fail_empty[of "(h, l)" src s' e] d s' show ?thesis
      by (simp add: empty_List_def)
  next
    case (Inr rest) then show ?thesis by simp
  qed
  with d s' show ?thesis by blast
qed

text \<open>A count of 2 followed by a payload length of 1 and no payload byte.\<close>

theorem Deserialize_failure_leaves_empty_witness:
  "list_inv (example_heap, example_List) [0, 1] \<and>
   (\<exists>h' l' r. Deserialize (example_heap, example_List) (Some [2, 0, 0, 0, 1, 0, 0, 0]) = Some ((h', l'), r) \<and>
      r = Inl ErrReadNodeData \<and> head l' = None \<and> tail l' = None \<and> count l' = 0)"
  using example_inv
    Deserialize_failure_leaves_empty[OF example_inv, of "Some [2, 0, 0, 0, 1, 0, 0, 0]"]
  by (auto simp: example_truncated)

subsection \<open>C10\<close>

text \<open>
  C10. \<^verbatim>\<open>Serialize\<close> on a well-formed list always returns, whatever the sink (none, too
  small, large enough), and the state after the call, the store of the nodes with every
  field of every node and the list object, is the state before it, whether the outcome
  is an exception or the written file.
\<close>

theorem Serialize_keeps_list:
  assumes "list_inv (h, l) as"
  shows "\<exists>r. Serialize (h, l) file = Some ((h, l), r)"
  using assms by (rule Serialize_total)

theorem Serialize_keeps_list_witness:
  "list_inv (example_heap, example_List) [0, 1] \<and>
   (\<exists>r. Serialize (example_heap, example_List) (Some \<lparr>written = [], room = 5\<rparr>) =
           Some ((example_heap, example_List), r))"
  using example_inv Serialize_keeps_list[OF example_inv] by simp

end
